theory Spec2Isabelle
  imports Main "HOL-Library.Char_ord" "HOL-Library.List_Lexorder"
begin

section \<open>Shared value types\<close>

text \<open>
  The C++ type \<open>int\<close> has 32 bits: its values are the integers from \<open>INT_MIN\<close> to
  \<open>INT_MAX\<close>.  Signed overflow is undefined behaviour in C++; the compiled program
  wraps around in two's complement, and so does the model: where the adjudicator and
  the game conductor negate, add or double an \<open>int\<close>, the result goes through
  \<open>wrap32\<close>, and \<open>qAbs\<close> of \<open>INT_MIN\<close> is \<open>INT_MIN\<close>.  The theorems about this
  arithmetic state the ranges on which nothing overflows.  The game counters of the
  match controller and the column counter of the PGN writer count games and characters;
  they are kept as mathematical integers.  Integer division by a positive constant
  truncates towards zero in C++; \<open>cdiv\<close> and \<open>crem\<close> write that rule out.
\<close>

definition INT_MIN :: int where
  "INT_MIN = - 2147483648"

definition INT_MAX :: int where
  "INT_MAX = 2147483647"

definition wrap32 :: "int \<Rightarrow> int" where
  "wrap32 x = (x + 2147483648) mod 4294967296 - 2147483648"

definition qAbs :: "int \<Rightarrow> int" where
  "qAbs x = (if x \<ge> 0 then x else wrap32 (- x))"

definition cdiv :: "int \<Rightarrow> int \<Rightarrow> int" where
  "cdiv a b = sgn a * sgn b * (\<bar>a\<bar> div \<bar>b\<bar>)"

definition crem :: "int \<Rightarrow> int \<Rightarrow> int" where
  "crem a b = a - b * cdiv a b"

text \<open>A \<open>Chess::Move\<close> is a number.\<close>

type_synonym Move = nat

text \<open>
  Modelled from the spec: \<open>Chess::Side\<close> (board/side.h) is not among the sources.  It
  is an enumeration of the two colours and the null side; the colours index arrays of
  size two (White is 0, Black is 1) and \<open>opposite\<close> exchanges the two colours.
\<close>

datatype Side = White | Black | NoSide

fun opposite :: "Side \<Rightarrow> Side" where
  "opposite White = Black"
| "opposite Black = White"
| "opposite NoSide = NoSide"

text \<open>
  Modelled from the spec: \<open>Chess::Result\<close> (board/result.h) is not among the sources.
  Section 3 of the specification gives it as a type, an optional winner and a
  description; the default-constructed result is the one of type \<open>None\<close>, which is
  what \<open>isNone\<close> tests.
\<close>

datatype ResultType =
  NoneType | Win | Draw | Adjudication | Timeout | Disconnection | StalledConnection
  | IllegalMove | Resignation | Agreement | NoResult | ResultError

record Result =
  rtype :: ResultType
  winner :: Side
  description :: string

definition mkResult :: "ResultType \<Rightarrow> Side \<Rightarrow> string \<Rightarrow> Result" where
  "mkResult t w d = \<lparr>rtype = t, winner = w, description = d\<rparr>"

definition nullResult :: Result where
  "nullResult = mkResult NoneType NoSide []"

definition isNone :: "Result \<Rightarrow> bool" where
  "isNone r = (rtype r = NoneType)"

section \<open>The adjudicator (gameadjudicator.cpp)\<close>

text \<open>
  \<open>MoveEvaluation\<close> as \<open>addEval\<close> reads it: the search depth and the score in
  centipawns; the time is read by the game conductor.
\<close>

record MoveEvaluation =
  depth :: int
  score :: int
  time :: int

text \<open>
  The three queries \<open>addEval\<close> makes of the \<open>Chess::Board\<close> it is handed.
\<close>

record Board =
  sideToMove :: Side
  plyCount :: int
  tablebaseResult :: Result

record GameAdjudicator =
  m_drawMoveNum :: int
  m_drawMoveCount :: int
  m_drawScore :: int
  m_drawScoreCount :: int
  m_resignMoveCount :: int
  m_resignScore :: int
  m_resignScoreCount :: "int \<times> int"
  m_tbEnabled :: bool
  m_result :: Result

text \<open>
  \<open>m_resignScoreCount\<close> is an \<open>int[2]\<close> indexed by a side.  Indexing it with the
  null side is out of bounds; the model makes that an error value.
\<close>

datatype AdjError = SideIndexOutOfRange

fun resignAt :: "int \<times> int \<Rightarrow> Side \<Rightarrow> int option" where
  "resignAt (w, b) White = Some w"
| "resignAt (w, b) Black = Some b"
| "resignAt (w, b) NoSide = None"

fun setResignAt :: "int \<times> int \<Rightarrow> Side \<Rightarrow> int \<Rightarrow> (int \<times> int) option" where
  "setResignAt (w, b) White v = Some (v, b)"
| "setResignAt (w, b) Black v = Some (w, v)"
| "setResignAt (w, b) NoSide v = None"

definition GameAdjudicator_init :: GameAdjudicator where
  "GameAdjudicator_init =
     \<lparr>m_drawMoveNum = 0, m_drawMoveCount = 0, m_drawScore = 0, m_drawScoreCount = 0,
      m_resignMoveCount = 0, m_resignScore = 0, m_resignScoreCount = (0, 0),
      m_tbEnabled = False, m_result = nullResult\<rparr>"

definition setDrawThreshold :: "GameAdjudicator \<Rightarrow> int \<Rightarrow> int \<Rightarrow> int \<Rightarrow> GameAdjudicator" where
  "setDrawThreshold a moveNumber moveCount sc =
     a\<lparr>m_drawMoveNum := moveNumber, m_drawMoveCount := moveCount,
       m_drawScore := sc, m_drawScoreCount := 0\<rparr>"

definition setResignThreshold :: "GameAdjudicator \<Rightarrow> int \<Rightarrow> int \<Rightarrow> GameAdjudicator" where
  "setResignThreshold a moveCount sc =
     a\<lparr>m_resignMoveCount := moveCount, m_resignScore := sc, m_resignScoreCount := (0, 0)\<rparr>"

definition setTablebaseAdjudication :: "GameAdjudicator \<Rightarrow> bool \<Rightarrow> GameAdjudicator" where
  "setTablebaseAdjudication a enable = a\<lparr>m_tbEnabled := enable\<rparr>"

definition resetDrawMoveCount :: "GameAdjudicator \<Rightarrow> GameAdjudicator" where
  "resetDrawMoveCount a = a\<lparr>m_drawScoreCount := 0\<rparr>"

definition tcecDraw :: Result where
  "tcecDraw = mkResult Adjudication NoSide ''TCEC draw rule''"

definition tcecWin :: "Side \<Rightarrow> Result" where
  "tcecWin s = mkResult Adjudication s ''TCEC win rule''"

text \<open>
  \<open>addEval\<close>, statement by statement: the tablebase probe with its early return, the
  branch for evaluations without depth, the draw rule with its early return, the
  resign rule.
\<close>

definition addEval :: "GameAdjudicator \<Rightarrow> Board \<Rightarrow> MoveEvaluation \<Rightarrow> AdjError + GameAdjudicator" where
  "addEval a board eval =
     (let side = opposite (sideToMove board);
          a1 = (if m_tbEnabled a then a\<lparr>m_result := tablebaseResult board\<rparr> else a)
      in
      if m_tbEnabled a \<and> \<not> isNone (m_result a1) then Inr a1
      else if depth eval \<le> 0 then
        (case setResignAt (m_resignScoreCount a1) side 0 of
           None \<Rightarrow> Inl SideIndexOutOfRange
         | Some rc \<Rightarrow> Inr (a1\<lparr>m_drawScoreCount := 0, m_resignScoreCount := rc\<rparr>))
      else
        let a2 = (if m_drawMoveNum a1 > 0
                  then a1\<lparr>m_drawScoreCount :=
                         (if qAbs (score eval) \<le> m_drawScore a1
                          then wrap32 (m_drawScoreCount a1 + 1) else 0)\<rparr>
                  else a1)
        in
        if m_drawMoveNum a2 > 0
           \<and> cdiv (plyCount board) 2 \<ge> m_drawMoveNum a2
           \<and> m_drawScoreCount a2 \<ge> wrap32 (m_drawMoveCount a2 * 2)
        then Inr (a2\<lparr>m_result := tcecDraw\<rparr>)
        else if m_resignMoveCount a2 > 0 then
          (case resignAt (m_resignScoreCount a2) side of
             None \<Rightarrow> Inl SideIndexOutOfRange
           | Some c \<Rightarrow>
               let count = (if score eval \<le> m_resignScore a2 then wrap32 (c + 1) else 0);
                   a3 = a2\<lparr>m_resignScoreCount :=
                          (case setResignAt (m_resignScoreCount a2) side count of
                             Some rc \<Rightarrow> rc | None \<Rightarrow> m_resignScoreCount a2)\<rparr>
               in
               if count \<ge> m_resignMoveCount a3
               then Inr (a3\<lparr>m_result := tcecWin (opposite side)\<rparr>)
               else Inr a3)
        else Inr a2)"

text \<open>
  The game conductor hands the adjudicator one evaluation per move; \<open>addEvals\<close> is that
  sequence of calls on one adjudicator, stopping at an out-of-bounds access.
\<close>

fun addEvals :: "GameAdjudicator \<Rightarrow> (Board \<times> MoveEvaluation) list \<Rightarrow> AdjError + GameAdjudicator" where
  "addEvals a [] = Inr a"
| "addEvals a (c # cs) =
     (case addEval a (fst c) (snd c) of
        Inl e \<Rightarrow> Inl e
      | Inr a' \<Rightarrow> addEvals a' cs)"


text \<open>
  The tablebase probe is silent on a board when it does not end the call early:
  tablebase adjudication is disabled, or the board has no tablebase result.
\<close>

definition tbSilent :: "GameAdjudicator \<Rightarrow> Board \<Rightarrow> bool" where
  "tbSilent a b = (\<not> (m_tbEnabled a \<and> \<not> isNone (tablebaseResult b)))"

text \<open>The fields that only the setters write.\<close>

definition sameConfig :: "GameAdjudicator \<Rightarrow> GameAdjudicator \<Rightarrow> bool" where
  "sameConfig a a' =
     (m_drawMoveNum a' = m_drawMoveNum a \<and> m_drawMoveCount a' = m_drawMoveCount a
      \<and> m_drawScore a' = m_drawScore a \<and> m_resignMoveCount a' = m_resignMoveCount a
      \<and> m_resignScore a' = m_resignScore a \<and> m_tbEnabled a' = m_tbEnabled a)"

text \<open>
  The draw rule in the words of the specification, for comparison with the counter
  \<open>m_drawScoreCount\<close> of the code: an evaluation counts when it has a depth and its
  absolute score is within the bound, and \<open>spec_drawRun\<close> is the number of most recent
  consecutive evaluations of a call sequence that count.
\<close>

definition spec_counts :: "int \<Rightarrow> MoveEvaluation \<Rightarrow> bool" where
  "spec_counts ds e = (depth e > 0 \<and> \<bar>score e\<bar> \<le> ds)"

definition spec_drawRun :: "int \<Rightarrow> (Board \<times> MoveEvaluation) list \<Rightarrow> int" where
  "spec_drawRun ds cs = int (length (takeWhile (\<lambda>c. spec_counts ds (snd c)) (rev cs)))"

subsection \<open>Concrete adjudicator inputs\<close>

definition boardAt :: "Side \<Rightarrow> int \<Rightarrow> Result \<Rightarrow> Board" where
  "boardAt s n tb = \<lparr>sideToMove = s, plyCount = n, tablebaseResult = tb\<rparr>"

definition evalOf :: "int \<Rightarrow> int \<Rightarrow> MoveEvaluation" where
  "evalOf d sc = \<lparr>depth = d, score = sc, time = 0\<rparr>"

definition adjWith :: "int \<Rightarrow> int \<times> int \<Rightarrow> bool \<Rightarrow> GameAdjudicator" where
  "adjWith dc rc tb =
     (setTablebaseAdjudication
        (setResignThreshold (setDrawThreshold GameAdjudicator_init 2 1 10) 3 (-500)) tb)
       \<lparr>m_drawScoreCount := dc, m_resignScoreCount := rc\<rparr>"

section \<open>The match controller (enginematch.cpp)\<close>

text \<open>
  \<open>EngineConfiguration\<close> and \<open>EngineSettings\<close> are declared outside the sources; the
  records hold what the match controller reads of them.  An engine and its process are
  pointers, modelled as handles with 0 for the null pointer.
\<close>

record EngineConfiguration =
  command :: string
  name :: string
  workingDirectory :: string

record EngineSettings =
  timeControlValid :: bool

record EngineData =
  config :: EngineConfiguration
  settings :: EngineSettings
  wins :: int
  engine :: nat
  process :: nat

text \<open>
  \<open>m_white\<close> and \<open>m_black\<close> point at elements of \<open>m_engines\<close>: an index into the
  vector, \<open>None\<close> for the null pointer.
\<close>

record EngineMatch =
  m_bookDepth :: int
  m_gameCount :: int
  m_drawCount :: int
  m_currentGame :: int
  m_pgnGamesRead :: int
  m_white :: "nat option"
  m_black :: "nat option"
  m_debug :: bool
  m_repeatOpening :: bool
  m_event :: string
  m_site :: string
  m_pgnOutput :: string
  m_engines :: "EngineData list"

definition EngineMatch_init :: EngineMatch where
  "EngineMatch_init =
     \<lparr>m_bookDepth = 30, m_gameCount = 1, m_drawCount = 0, m_currentGame = 0,
      m_pgnGamesRead = 0, m_white = None, m_black = None, m_debug = False,
      m_repeatOpening = False, m_event = [], m_site = [], m_pgnOutput = [],
      m_engines = []\<rparr>"

text \<open>The setters return the new state and the warnings they log.\<close>

definition addEngine ::
  "EngineMatch \<Rightarrow> EngineConfiguration \<Rightarrow> EngineSettings \<Rightarrow> EngineMatch \<times> string list" where
  "addEngine m engineConfig st =
     (if length (m_engines m) \<ge> 2 then (m, [''Only two engines can be added''])
      else if command engineConfig = [] then (m, [])
      else (m\<lparr>m_engines := m_engines m
                 @ [\<lparr>config = engineConfig, settings = st, wins = 0, engine = 0, process = 0\<rparr>]\<rparr>,
            []))"

definition setBookDepth :: "EngineMatch \<Rightarrow> int \<Rightarrow> EngineMatch \<times> string list" where
  "setBookDepth m bookDepth =
     (if bookDepth \<le> 0 then (m, [''Book depth must be bigger than zero''])
      else (m\<lparr>m_bookDepth := bookDepth\<rparr>, []))"

definition setGameCount :: "EngineMatch \<Rightarrow> int \<Rightarrow> EngineMatch" where
  "setGameCount m gameCount = m\<lparr>m_gameCount := gameCount\<rparr>"

definition setPgnOutput :: "EngineMatch \<Rightarrow> string \<Rightarrow> EngineMatch" where
  "setPgnOutput m filename = m\<lparr>m_pgnOutput := filename\<rparr>"

text \<open>A sequence of \<open>addEngine\<close> calls, the warnings dropped.\<close>

fun addEngines :: "EngineMatch \<Rightarrow> (EngineConfiguration \<times> EngineSettings) list \<Rightarrow> EngineMatch" where
  "addEngines m [] = m"
| "addEngines m (c # cs) = addEngines (fst (addEngine m (fst c) (snd c))) cs"

datatype MatchError = EngineIndexOutOfRange | NullEnginePointer

text \<open>
  \<open>start\<close>: the assignment of colours for game \<open>m_currentGame\<close> and the two
  \<open>setPlayer\<close> calls on the new game, returned as the engines that play White and
  Black.  \<open>m_engines[0]\<close> and \<open>m_engines[1]\<close> are out of range on a vector of fewer
  than two engines.  The seeding of the opening that follows in the source (lines
  289 to 325) works on the opening book, the PGN input and the new game, and writes
  none of the fields modelled here; it is not part of the model.
\<close>

record GamePlayers =
  whitePlayer :: nat
  blackPlayer :: nat

definition start :: "EngineMatch \<Rightarrow> MatchError + (EngineMatch \<times> GamePlayers)" where
  "start m =
     (if length (m_engines m) < 2 then Inl EngineIndexOutOfRange
      else
        let w = (if crem (m_currentGame m) 2 = 0 then 0 else 1);
            b = (if crem (m_currentGame m) 2 = 0 then 1 else 0)
        in Inr (m\<lparr>m_white := Some w, m_black := Some b\<rparr>,
                \<lparr>whitePlayer = engine (m_engines m ! w),
                 blackPlayer = engine (m_engines m ! b)\<rparr>))"

text \<open>
  Modelled from the spec: the \<open>Chess::Result\<close> that \<open>onGameEnded\<close> reads has a result
  code; its declaration is outside the sources.  The two codes the function names are
  constructors, every other code is \<open>OtherCode\<close>.  \<open>isDraw\<close> and \<open>winner\<close> are the
  other two queries the function makes.
\<close>

datatype Code = CodeResultError | WinByDisconnection | OtherCode nat

record GameResult =
  code :: Code
  isDraw :: bool
  gameWinner :: Side

text \<open>What \<open>onGameEnded\<close> does to the world outside the match state.\<close>

datatype MatchAction =
    WritePgn string string int string
  | DeleteGame
  | SingleShot int string
  | KillEngines
  | EmitFinished

definition bumpWins :: "EngineMatch \<Rightarrow> nat option \<Rightarrow> MatchError + EngineMatch" where
  "bumpWins m p =
     (case p of
        None \<Rightarrow> Inl NullEnginePointer
      | Some i \<Rightarrow>
          if i < length (m_engines m)
          then Inr (m\<lparr>m_engines := (m_engines m)[i := (m_engines m ! i)\<lparr>wins := wins (m_engines m ! i) + 1\<rparr>]\<rparr>)
          else Inl EngineIndexOutOfRange)"

definition onGameEnded :: "EngineMatch \<Rightarrow> GameResult \<Rightarrow> MatchError + (EngineMatch \<times> MatchAction list)" where
  "onGameEnded m result =
     (case (if isDraw result then Inr (m\<lparr>m_drawCount := m_drawCount m + 1\<rparr>)
            else if gameWinner result = White then bumpWins m (m_white m)
            else if gameWinner result = Black then bumpWins m (m_black m)
            else Inr m) of
        Inl e \<Rightarrow> Inl e
      | Inr m1 \<Rightarrow>
          let pgn = (if m_pgnOutput m1 \<noteq> []
                     then [WritePgn (m_event m1) (m_site m1) (m_currentGame m1 + 1) (m_pgnOutput m1)]
                     else []);
              m2 = m1\<lparr>m_currentGame := m_currentGame m1 + 1\<rparr>
          in
          if length (m_engines m2) < 2 then Inl EngineIndexOutOfRange
          else if m_currentGame m2 < m_gameCount m2
                  \<and> code result \<noteq> CodeResultError
                  \<and> code result \<noteq> WinByDisconnection
          then Inr (m2, pgn @ [DeleteGame, SingleShot 2000 ''start''])
          else Inr (m2, pgn @ [DeleteGame, KillEngines, EmitFinished]))"

text \<open>The timers an action list sets, and the two outcomes of a finished game.\<close>

fun timers :: "MatchAction list \<Rightarrow> (int \<times> string) list" where
  "timers [] = []"
| "timers (SingleShot d s # as) = (d, s) # timers as"
| "timers (a # as) = timers as"

definition matchFinished :: "MatchAction list \<Rightarrow> bool" where
  "matchFinished as = (KillEngines \<in> set as \<and> EmitFinished \<in> set as \<and> timers as = [])"

definition nextGameScheduled :: "MatchAction list \<Rightarrow> bool" where
  "nextGameScheduled as =
     (timers as = [(2000, ''start'')] \<and> KillEngines \<notin> set as \<and> EmitFinished \<notin> set as)"

text \<open>
  The state in which a game of the match ends: \<open>start\<close> has pointed \<open>m_white\<close> and
  \<open>m_black\<close> at engines of the vector.
\<close>

definition gameRunning :: "EngineMatch \<Rightarrow> bool" where
  "gameRunning m =
     (length (m_engines m) \<ge> 2
      \<and> (case m_white m of None \<Rightarrow> False | Some i \<Rightarrow> i < length (m_engines m))
      \<and> (case m_black m of None \<Rightarrow> False | Some i \<Rightarrow> i < length (m_engines m)))"

subsection \<open>A concrete match\<close>

definition exConfig :: "string \<Rightarrow> EngineConfiguration" where
  "exConfig c = \<lparr>command = c, name = [], workingDirectory = []\<rparr>"

definition exSettings :: EngineSettings where
  "exSettings = \<lparr>timeControlValid = True\<rparr>"

definition exEngine :: "string \<Rightarrow> nat \<Rightarrow> EngineData" where
  "exEngine c h = \<lparr>config = exConfig c, settings = exSettings, wins = 0, engine = h, process = h\<rparr>"

definition exMatch :: "int \<Rightarrow> int \<Rightarrow> EngineMatch" where
  "exMatch g n =
     EngineMatch_init\<lparr>m_engines := [exEngine ''a'' 11, exEngine ''b'' 12],
                      m_currentGame := g, m_gameCount := n\<rparr>"

definition exPlaying :: "int \<Rightarrow> int \<Rightarrow> EngineMatch" where
  "exPlaying g n = (exMatch g n)\<lparr>m_white := Some 1, m_black := Some 0\<rparr>"

definition exResult :: "Code \<Rightarrow> GameResult" where
  "exResult c = \<lparr>code = c, isDraw = False, gameWinner = White\<rparr>"

section \<open>The PGN codec (pgngame.cpp)\<close>

text \<open>
  \<open>QString\<close> is modelled by \<open>string\<close>, and a \<open>QTextStream\<close> by the text written to it.
  \<open>QString::number\<close> of an \<open>int\<close> is its decimal numeral.
\<close>

definition dquote :: char where
  "dquote = CHR 0x22"

definition newline :: char where
  "newline = CHR 0x0A"

definition digitChar :: "nat \<Rightarrow> char" where
  "digitChar d = ''0123456789'' ! d"

fun digitsOf :: "nat \<Rightarrow> string" where
  "digitsOf n = (if n < 10 then [digitChar n] else digitsOf (n div 10) @ [digitChar (n mod 10)])"

declare digitsOf.simps [simp del]

definition number :: "int \<Rightarrow> string" where
  "number n = (if n < 0 then CHR ''-'' # digitsOf (nat (- n)) else digitsOf (nat n))"

text \<open>
  \<open>QMap<QString, QString>\<close>: an association list kept in key order, which is the order
  in which the map is iterated.  \<open>value\<close> of a missing key is the empty string.
\<close>

type_synonym QMap = "(string \<times> string) list"

fun qmap_insert :: "string \<Rightarrow> string \<Rightarrow> QMap \<Rightarrow> QMap" where
  "qmap_insert k v [] = [(k, v)]"
| "qmap_insert k v ((k', v') # m) =
     (if k < k' then (k, v) # (k', v') # m
      else if k = k' then (k, v) # m
      else (k', v') # qmap_insert k v m)"

definition qmap_remove :: "string \<Rightarrow> QMap \<Rightarrow> QMap" where
  "qmap_remove k m = filter (\<lambda>p. fst p \<noteq> k) m"

definition qmap_value :: "QMap \<Rightarrow> string \<Rightarrow> string" where
  "qmap_value m k = (case map_of m k of None \<Rightarrow> [] | Some v \<Rightarrow> v)"

definition qmap_contains :: "QMap \<Rightarrow> string \<Rightarrow> bool" where
  "qmap_contains m k = (map_of m k \<noteq> None)"

record MoveData =
  key :: nat
  move :: nat
  moveString :: string
  comment :: string

record PgnGame =
  m_startingSide :: Side
  m_tags :: QMap
  m_moves :: "MoveData list"

datatype PgnMode = Minimal | Verbose

definition tagValue :: "PgnGame \<Rightarrow> string \<Rightarrow> string" where
  "tagValue g tag = qmap_value (m_tags g) tag"

definition setTag :: "PgnGame \<Rightarrow> string \<Rightarrow> string \<Rightarrow> PgnGame" where
  "setTag g tag v =
     (if v = [] then g\<lparr>m_tags := qmap_remove tag (m_tags g)\<rparr>
      else g\<lparr>m_tags := qmap_insert tag v (m_tags g)\<rparr>)"

definition setEvent :: "PgnGame \<Rightarrow> string \<Rightarrow> PgnGame" where
  "setEvent g event = g\<lparr>m_tags := qmap_insert ''Event'' event (m_tags g)\<rparr>"

definition setSite :: "PgnGame \<Rightarrow> string \<Rightarrow> PgnGame" where
  "setSite g site = g\<lparr>m_tags := qmap_insert ''Site'' site (m_tags g)\<rparr>"

definition setRound :: "PgnGame \<Rightarrow> int \<Rightarrow> PgnGame" where
  "setRound g round = g\<lparr>m_tags := qmap_insert ''Round'' (number round) (m_tags g)\<rparr>"

definition setPlayerName :: "PgnGame \<Rightarrow> Side \<Rightarrow> string \<Rightarrow> PgnGame" where
  "setPlayerName g side nm =
     (if side = White then g\<lparr>m_tags := qmap_insert ''White'' nm (m_tags g)\<rparr>
      else if side = Black then g\<lparr>m_tags := qmap_insert ''Black'' nm (m_tags g)\<rparr>
      else g)"

text \<open>\<open>writeTag\<close> and \<open>write\<close> return the text they send to the stream.\<close>

definition writeTag :: "string \<Rightarrow> string \<Rightarrow> string" where
  "writeTag tag v =
     (if v \<noteq> [] then ''['' @ tag @ [CHR '' '', dquote] @ v @ [dquote] @ '']'' @ [newline]
      else ''['' @ tag @ [CHR '' '', dquote] @ ''?'' @ [dquote] @ '']'' @ [newline])"

definition roster :: "string list" where
  "roster = [''Event'', ''Site'', ''Date'', ''Round'', ''White'', ''Black'', ''Result'']"

text \<open>
  The tags other than the roster that \<open>write\<close> emits, in the order of the loop over the
  map (Verbose), or the pair FEN and SetUp (Minimal).
\<close>

definition supplementaryTags :: "PgnGame \<Rightarrow> PgnMode \<Rightarrow> (string \<times> string) list" where
  "supplementaryTags g mode =
     (if mode = Verbose
      then filter (\<lambda>it. fst it \<notin> set roster \<and> snd it \<noteq> []) (m_tags g)
      else if mode = Minimal \<and> qmap_contains (m_tags g) ''FEN''
      then [(''FEN'', qmap_value (m_tags g) ''FEN''), (''SetUp'', qmap_value (m_tags g) ''SetUp'')]
      else [])"

definition writeTags :: "PgnGame \<Rightarrow> PgnMode \<Rightarrow> string" where
  "writeTags g mode =
     concat (map (\<lambda>tag. writeTag tag (qmap_value (m_tags g) tag)) roster)
     @ concat (map (\<lambda>it. writeTag (fst it) (snd it)) (supplementaryTags g mode))"

text \<open>
  The text of one move in the loop of \<open>write\<close>: the move number when the move is
  numbered, the move string, and in Verbose mode the comment in braces.
\<close>

definition moveToken :: "PgnMode \<Rightarrow> bool \<Rightarrow> int \<Rightarrow> MoveData \<Rightarrow> string" where
  "moveToken mode numbered movenum data =
     (if numbered then number movenum @ ''. '' else [])
     @ moveString data
     @ (if mode = Verbose \<and> comment data \<noteq> [] then '' {'' @ comment data @ ''}'' else [])"

text \<open>
  The loop over the moves, with its variables \<open>i\<close>, \<open>lineLength\<close>, \<open>movenum\<close> and
  the \<open>int\<close> \<open>side\<close>; it returns the text and the final \<open>lineLength\<close>.
\<close>

fun writeMoves :: "PgnMode \<Rightarrow> MoveData list \<Rightarrow> nat \<Rightarrow> int \<Rightarrow> int \<Rightarrow> int \<Rightarrow> string \<times> int" where
  "writeMoves mode [] i lineLength movenum side = ([], lineLength)"
| "writeMoves mode (data # rest) i lineLength movenum side =
     (let numbered = (side = 0 \<or> i = 0);
          movenum' = (if numbered then movenum + 1 else movenum);
          str = moveToken mode numbered movenum' data;
          fresh = (lineLength = 0 \<or> lineLength + int (length str) \<ge> 80);
          out = (if fresh then newline # str else CHR '' '' # str);
          lineLength' = (if fresh then int (length str) else lineLength + (int (length str) + 1));
          r = writeMoves mode rest (i + 1) lineLength' movenum' (if side = 0 then 1 else 0)
      in (out @ fst r, snd r))"

definition sideInt :: "Side \<Rightarrow> int" where
  "sideInt s = (case s of White \<Rightarrow> 0 | Black \<Rightarrow> 1 | NoSide \<Rightarrow> 2)"

definition writeMovetext :: "PgnGame \<Rightarrow> PgnMode \<Rightarrow> string" where
  "writeMovetext g mode =
     (let r = writeMoves mode (m_moves g) 0 0 0 (sideInt (m_startingSide g));
          str = qmap_value (m_tags g) ''Result''
      in fst r @ (if snd r + int (length str) \<ge> 80
                  then newline # str @ [newline, newline]
                  else CHR '' '' # str @ [newline, newline]))"

definition writePgn :: "PgnGame \<Rightarrow> PgnMode \<Rightarrow> string" where
  "writePgn g mode = (if m_tags g = [] then [] else writeTags g mode @ writeMovetext g mode)"

definition PgnGame_init :: PgnGame where
  "PgnGame_init = \<lparr>m_startingSide = White, m_tags = [], m_moves = []\<rparr>"

definition mv :: "string \<Rightarrow> string \<Rightarrow> MoveData" where
  "mv s c = \<lparr>key = 0, move = 0, moveString = s, comment = c\<rparr>"

text \<open>
  The strings \<open>str\<close> that the loop of \<open>write\<close> builds, one for each move, in order.
\<close>

fun moveTokens :: "PgnMode \<Rightarrow> MoveData list \<Rightarrow> nat \<Rightarrow> int \<Rightarrow> int \<Rightarrow> string list" where
  "moveTokens mode [] i movenum side = []"
| "moveTokens mode (data # rest) i movenum side =
     (let numbered = (side = 0 \<or> i = 0);
          movenum' = (if numbered then movenum + 1 else movenum)
      in moveToken mode numbered movenum' data
           # moveTokens mode rest (i + 1) movenum' (if side = 0 then 1 else 0))"

text \<open>
  The lines of a text.  \<open>fits n s\<close> holds when, written after \<open>n\<close> characters of a
  line, the text \<open>s\<close> leaves no line longer than 80, and \<open>endCol n s\<close> is the length
  of the last line then.
\<close>

fun splitLines :: "string \<Rightarrow> string list" where
  "splitLines [] = [[]]"
| "splitLines (c # cs) =
     (if c = newline then [] # splitLines cs
      else (case splitLines cs of [] \<Rightarrow> [[c]] | l # ls \<Rightarrow> (c # l) # ls))"

fun fits :: "nat \<Rightarrow> string \<Rightarrow> bool" where
  "fits n [] = (n \<le> 80)"
| "fits n (c # cs) = (if c = newline then n \<le> 80 \<and> fits 0 cs else fits (Suc n) cs)"

fun endCol :: "nat \<Rightarrow> string \<Rightarrow> nat" where
  "endCol n [] = n"
| "endCol n (c # cs) = (if c = newline then endCol 0 cs else endCol (Suc n) cs)"

subsection \<open>Reading (pgngame.cpp, \<open>read\<close>, \<open>parseMove\<close> and \<open>addMove\<close>)\<close>

text \<open>
  \<open>PgnStream\<close>, \<open>Chess::Board\<close> and \<open>EcoNode\<close> are declared outside the sources.
  \<open>read\<close> sees the stream as a sequence of tokens, each with the strings that
  \<open>tagName\<close>, \<open>tagValue\<close> and \<open>tokenString\<close> return for it; \<open>readNext\<close> on an
  exhausted stream is \<open>NoToken\<close>.  The stream's board (type \<open>'s\<close>) and the opening
  tree (type \<open>'e\<close>) enter through the operations the reader calls on them, which are
  parameters of the model; an operation that can fail returns \<open>None\<close> then.
\<close>

datatype Token =
    PgnTag string string
  | PgnMove string
  | PgnComment string
  | PgnResult string
  | PgnNag string

record ('s, 'e) PgnEnv =
  setVariant :: "'s \<Rightarrow> string \<Rightarrow> 's option"
  variantOf :: "'s \<Rightarrow> string"
  isRandomVariant :: "'s \<Rightarrow> bool"
  defaultFenString :: "'s \<Rightarrow> string"
  setFenString :: "'s \<Rightarrow> string \<Rightarrow> 's option"
  startingSide :: "'s \<Rightarrow> Side"
  moveFromString :: "'s \<Rightarrow> string \<Rightarrow> Move option"
  keyOf :: "'s \<Rightarrow> nat"
  genericMove :: "'s \<Rightarrow> Move \<Rightarrow> nat"
  makeMove :: "'s \<Rightarrow> Move \<Rightarrow> 's"
  ecoRoot :: "'e option"
  ecoChild :: "'e \<Rightarrow> string \<Rightarrow> 'e option"
  ecoIsLeaf :: "'e \<Rightarrow> bool"
  ecoCode :: "'e \<Rightarrow> string"
  ecoOpening :: "'e \<Rightarrow> string"
  ecoVariation :: "'e \<Rightarrow> string"

text \<open>
  The game being read, its member \<open>m_eco\<close> (a pointer into the opening tree, \<open>None\<close>
  for null) and the stream's board.
\<close>

record ('s, 'e) Reader =
  rGame :: PgnGame
  m_eco :: "'e option"
  rBoard :: 's

definition variant :: "PgnGame \<Rightarrow> string" where
  "variant g =
     (if qmap_contains (m_tags g) ''Variant'' then qmap_value (m_tags g) ''Variant''
      else ''standard'')"

definition isStandard :: "PgnGame \<Rightarrow> bool" where
  "isStandard g = (variant g = ''standard'' \<and> \<not> qmap_contains (m_tags g) ''FEN'')"

definition addMove :: "('s, 'e) PgnEnv \<Rightarrow> ('s, 'e) Reader \<Rightarrow> MoveData \<Rightarrow> ('s, 'e) Reader" where
  "addMove env r data =
     (let g1 = (rGame r)\<lparr>m_moves := m_moves (rGame r) @ [data]\<rparr>;
          eco = (case m_eco r of
                   None \<Rightarrow> None
                 | Some e \<Rightarrow> if isStandard g1 then ecoChild env e (moveString data) else None)
      in case eco of
           None \<Rightarrow> r\<lparr>rGame := g1, m_eco := None\<rparr>
         | Some e \<Rightarrow>
             if ecoIsLeaf env e
             then r\<lparr>rGame := setTag (setTag (setTag g1 ''ECO'' (ecoCode env e))
                                  ''Opening'' (ecoOpening env e))
                                  ''Variation'' (ecoVariation env e),
                    m_eco := Some e\<rparr>
             else r\<lparr>rGame := g1, m_eco := Some e\<rparr>)"

text \<open>
  The part of \<open>parseMove\<close> that runs before the first move: the variant and the
  starting position are set on the stream's board.
\<close>

definition firstMove :: "('s, 'e) PgnEnv \<Rightarrow> ('s, 'e) Reader \<Rightarrow> bool \<times> ('s, 'e) Reader" where
  "firstMove env r =
     (let tmp = qmap_value (m_tags (rGame r)) ''Variant'' in
      case (if tmp \<noteq> [] then setVariant env (rBoard r) tmp else Some (rBoard r)) of
        None \<Rightarrow> (False, r)
      | Some s1 \<Rightarrow>
          let g1 = (if tmp = [] \<and> variantOf env s1 \<noteq> ''standard''
                    then (rGame r)\<lparr>m_tags := qmap_insert ''Variant'' (variantOf env s1)
                                                 (m_tags (rGame r))\<rparr>
                    else rGame r);
              fen = qmap_value (m_tags g1) ''FEN''
          in
          if fen = [] \<and> isRandomVariant env s1 then (False, r\<lparr>rGame := g1, rBoard := s1\<rparr>)
          else
            case setFenString env s1 (if fen = [] then defaultFenString env s1 else fen) of
              None \<Rightarrow> (False, r\<lparr>rGame := g1, rBoard := s1\<rparr>)
            | Some s2 \<Rightarrow>
                (True, r\<lparr>rGame := g1\<lparr>m_startingSide := startingSide env s2\<rparr>, rBoard := s2\<rparr>))"

definition parseMove ::
  "('s, 'e) PgnEnv \<Rightarrow> ('s, 'e) Reader \<Rightarrow> string \<Rightarrow> bool \<times> ('s, 'e) Reader" where
  "parseMove env r str =
     (if m_tags (rGame r) = [] then (False, r)
      else
        let p = (if m_moves (rGame r) = [] then firstMove env r else (True, r)) in
        if \<not> fst p then p
        else
          case moveFromString env (rBoard (snd p)) str of
            None \<Rightarrow> (False, snd p)
          | Some m \<Rightarrow>
              let md = \<lparr>key = keyOf env (rBoard (snd p)),
                        move = genericMove env (rBoard (snd p)) m,
                        moveString = str, comment = []\<rparr>;
                  r1 = addMove env (snd p) md
              in (True, r1\<lparr>rBoard := makeMove env (rBoard r1) m\<rparr>))"

definition appendComment :: "PgnGame \<Rightarrow> string \<Rightarrow> PgnGame" where
  "appendComment g c =
     (if m_moves g \<noteq> []
      then g\<lparr>m_moves := butlast (m_moves g)
                @ [(last (m_moves g))\<lparr>comment := comment (last (m_moves g)) @ c\<rparr>]\<rparr>
      else g)"

text \<open>The loop of \<open>read\<close> over the tokens of the stream.\<close>

fun readLoop ::
  "('s, 'e) PgnEnv \<Rightarrow> int \<Rightarrow> ('s, 'e) Reader \<Rightarrow> Token list \<Rightarrow> ('s, 'e) Reader" where
  "readLoop env maxMoves r [] = r"
| "readLoop env maxMoves r (PgnTag n v # toks) =
     readLoop env maxMoves (r\<lparr>rGame := (rGame r)\<lparr>m_tags := qmap_insert n v (m_tags (rGame r))\<rparr>\<rparr>) toks"
| "readLoop env maxMoves r (PgnMove str # toks) =
     (let p = parseMove env r str in
      if \<not> fst p \<or> int (length (m_moves (rGame (snd p)))) \<ge> maxMoves then snd p
      else readLoop env maxMoves (snd p) toks)"
| "readLoop env maxMoves r (PgnComment c # toks) =
     readLoop env maxMoves (r\<lparr>rGame := appendComment (rGame r) c\<rparr>) toks"
| "readLoop env maxMoves r (PgnResult str # toks) =
     r\<lparr>rGame := (rGame r)\<lparr>m_tags := qmap_insert ''Result'' str (m_tags (rGame r))\<rparr>\<rparr>"
| "readLoop env maxMoves r (PgnNag s # toks) = readLoop env maxMoves r toks"

text \<open>
  \<open>clear\<close> leaves the default-constructed side, no tags and no moves.  \<open>read\<close>
  clears the game and gives up when \<open>nextGame\<close> finds no game, which the model takes
  to be a stream without tokens; after the loop a game without tags is refused and the
  \<open>PlyCount\<close> tag is set.  The result is the value \<open>read\<close> returns, with the game,
  \<open>m_eco\<close> and the board as they are then.
\<close>

definition clear :: PgnGame where
  "clear = \<lparr>m_startingSide = NoSide, m_tags = [], m_moves = []\<rparr>"

definition readPgn ::
  "('s, 'e) PgnEnv \<Rightarrow> 's \<Rightarrow> int \<Rightarrow> Token list \<Rightarrow> bool \<times> ('s, 'e) Reader" where
  "readPgn env s maxMoves toks =
     (let r0 = \<lparr>rGame = clear, m_eco = ecoRoot env, rBoard = s\<rparr> in
      if toks = [] then (False, r0)
      else
        let r = readLoop env maxMoves r0 toks in
        if m_tags (rGame r) = [] then (False, r)
        else (True, r\<lparr>rGame := (rGame r)\<lparr>m_tags :=
                 qmap_insert ''PlyCount'' (number (int (length (m_moves (rGame r)))))
                   (m_tags (rGame r))\<rparr>\<rparr>))"

text \<open>
  Modelled from the spec: the tokenizer of \<open>PgnStream\<close> (pgnstream.cpp) is not among
  the sources.  Section 4.3 of the specification names its tokens (tag, move, result,
  comment, NAG, end of game) and sections 4.3 and 6 the format: tag pairs
  \<open>[Name "Value"]\<close> first, then the movetext, in which tokens are separated by
  white space, move numbers \<open>N.\<close> precede moves, comments are wrapped in braces and
  the result marker ends the game.
\<close>

definition isSpace :: "char \<Rightarrow> bool" where
  "isSpace c = (c = CHR '' '' \<or> c = newline \<or> c = CHR 0x09 \<or> c = CHR 0x0D)"

definition isDigit :: "char \<Rightarrow> bool" where
  "isDigit c = (c \<in> set ''0123456789'')"

definition isWordChar :: "char \<Rightarrow> bool" where
  "isWordChar c = (\<not> isSpace c \<and> c \<noteq> CHR ''{'')"

definition isResultMarker :: "string \<Rightarrow> bool" where
  "isResultMarker w = (w \<in> set [''1-0'', ''0-1'', ''1/2-1/2'', ''*''])"

definition isMoveNumber :: "string \<Rightarrow> bool" where
  "isMoveNumber w = list_all (\<lambda>c. isDigit c \<or> c = CHR ''.'') w"

definition afterComment :: "string \<Rightarrow> string" where
  "afterComment cs = drop 1 (dropWhile (\<lambda>x. x \<noteq> CHR ''}'') cs)"

definition afterWord :: "string \<Rightarrow> string" where
  "afterWord cs = dropWhile isWordChar cs"

text \<open>
  Modelled from the spec: the tokens of the movetext, which \<open>PgnStream::readNext\<close>
  (not among the sources) delivers one at a time.  White space separates tokens, a
  brace opens a comment that runs to the closing brace, a result marker ends the game,
  a move number is skipped, a word that starts with \<open>$\<close> is a NAG and any other
  word is a move.
\<close>

function lexMoves :: "string \<Rightarrow> Token list" where
  "lexMoves [] = []"
| "lexMoves (c # cs) =
     (if isSpace c then lexMoves cs
      else if c = CHR ''{''
      then PgnComment (takeWhile (\<lambda>x. x \<noteq> CHR ''}'') cs) # lexMoves (afterComment cs)
      else if isResultMarker (c # takeWhile isWordChar cs) then [PgnResult (c # takeWhile isWordChar cs)]
      else if isMoveNumber (c # takeWhile isWordChar cs) then lexMoves (afterWord cs)
      else if c = CHR ''$'' then PgnNag (takeWhile isWordChar cs) # lexMoves (afterWord cs)
      else PgnMove (c # takeWhile isWordChar cs) # lexMoves (afterWord cs))"
  by pat_completeness auto
termination
proof (relation "measure length")
  fix c :: char and cs :: string
  have "length (dropWhile (\<lambda>x. x \<noteq> CHR ''}'') cs) \<le> length cs"
    by (rule length_dropWhile_le)
  then show "(afterComment cs, c # cs) \<in> measure length"
    by (simp add: afterComment_def)
  have "length (dropWhile isWordChar cs) \<le> length cs"
    by (rule length_dropWhile_le)
  then show "(afterWord cs, c # cs) \<in> measure length"
    and "(afterWord cs, c # cs) \<in> measure length"
    and "(afterWord cs, c # cs) \<in> measure length"
    by (simp_all add: afterWord_def)
qed simp_all

text \<open>
  Modelled from the spec: the tag section, which \<open>PgnStream::readNext\<close> (not among
  the sources) delivers as tag tokens.  A tag pair is an opening bracket, the name up
  to the first space, the value between the next two double quotes, and the closing
  bracket; the first character that is neither white space nor an opening bracket
  starts the movetext.
\<close>

definition tagNameOf :: "string \<Rightarrow> string" where
  "tagNameOf cs = takeWhile (\<lambda>x. x \<noteq> CHR '' '') cs"

definition fromQuote :: "string \<Rightarrow> string" where
  "fromQuote cs = drop 1 (dropWhile (\<lambda>x. x \<noteq> dquote) cs)"

definition tagValueOf :: "string \<Rightarrow> string" where
  "tagValueOf cs = takeWhile (\<lambda>x. x \<noteq> dquote) (fromQuote cs)"

definition afterTag :: "string \<Rightarrow> string" where
  "afterTag cs = drop 1 (dropWhile (\<lambda>x. x \<noteq> CHR '']'') (fromQuote (fromQuote cs)))"

function lexTags :: "string \<Rightarrow> Token list" where
  "lexTags [] = []"
| "lexTags (c # cs) =
     (if isSpace c then lexTags cs
      else if c = CHR ''[''
      then PgnTag (tagNameOf cs) (tagValueOf cs) # lexTags (afterTag cs)
      else lexMoves (c # cs))"
  by pat_completeness auto
termination
proof (relation "measure length")
  fix c :: char and cs :: string
  have fq: "length (fromQuote xs) \<le> length xs" for xs
    using length_dropWhile_le [of "\<lambda>x. x \<noteq> dquote" xs] by (simp add: fromQuote_def)
  have "length (afterTag cs) \<le> length (fromQuote (fromQuote cs))"
    using length_dropWhile_le [of "\<lambda>x. x \<noteq> CHR '']''" "fromQuote (fromQuote cs)"]
    by (simp add: afterTag_def)
  also have "\<dots> \<le> length cs"
    using fq [of "fromQuote cs"] fq [of cs] by simp
  finally show "(afterTag cs, c # cs) \<in> measure length"
    by simp
qed simp_all

text \<open>
  Modelled from the spec: the token sequence \<open>PgnStream\<close> (not among the sources)
  delivers for a text that holds one game.
\<close>

definition pgnTokens :: "string \<Rightarrow> Token list" where
  "pgnTokens text = lexTags text"

text \<open>
  The tag pairs that \<open>write\<close> emits, in order, with the value as rendered; the tokens
  of one move; and what the reader's tag map holds after the tag section.
\<close>

definition rendered :: "string \<Rightarrow> string" where
  "rendered v = (if v = [] then ''?'' else v)"

definition writtenTags :: "PgnGame \<Rightarrow> PgnMode \<Rightarrow> (string \<times> string) list" where
  "writtenTags g mode =
     map (\<lambda>p. (fst p, rendered (snd p)))
       (map (\<lambda>tag. (tag, qmap_value (m_tags g) tag)) roster @ supplementaryTags g mode)"

definition moveToks :: "PgnMode \<Rightarrow> MoveData \<Rightarrow> Token list" where
  "moveToks mode d =
     PgnMove (moveString d)
       # (if mode = Verbose \<and> comment d \<noteq> [] then [PgnComment (comment d)] else [])"

definition plainMove :: "string \<Rightarrow> bool" where
  "plainMove w =
     (w \<noteq> [] \<and> list_all isWordChar w \<and> \<not> isResultMarker w \<and> \<not> isMoveNumber w
      \<and> hd w \<noteq> CHR ''$'')"

definition plainTag :: "string \<times> string \<Rightarrow> bool" where
  "plainTag p = (CHR '' '' \<notin> set (fst p) \<and> dquote \<notin> set (fst p) \<and> dquote \<notin> set (snd p))"

text \<open>
  The tag map the reader holds after the tag section of a written game, and the
  condition that the reader's board accepts a sequence of move strings: \<open>accepts\<close>
  from a board, \<open>boardAccepts\<close> from the stream's board once the first move has set
  the variant and the starting position named by the tags.
\<close>

definition tagsRead :: "PgnGame \<Rightarrow> PgnMode \<Rightarrow> QMap" where
  "tagsRead g mode = foldl (\<lambda>m p. qmap_insert (fst p) (snd p) m) [] (writtenTags g mode)"

fun accepts :: "('s, 'e) PgnEnv \<Rightarrow> 's \<Rightarrow> string list \<Rightarrow> bool" where
  "accepts env s [] = True"
| "accepts env s (x # xs) =
     (case moveFromString env s x of
        None \<Rightarrow> False
      | Some m \<Rightarrow> accepts env (makeMove env s m) xs)"

definition boardAccepts :: "('s, 'e) PgnEnv \<Rightarrow> 's \<Rightarrow> QMap \<Rightarrow> string list \<Rightarrow> bool" where
  "boardAccepts env s tags strs =
     (strs = []
      \<or> (let p = firstMove env \<lparr>rGame = clear\<lparr>m_tags := tags\<rparr>, m_eco = ecoRoot env, rBoard = s\<rparr>
         in fst p \<and> accepts env (rBoard (snd p)) strs))"

definition sameRoster :: "PgnGame \<Rightarrow> PgnGame \<Rightarrow> bool" where
  "sameRoster g g' = (\<forall>t\<in>set roster. tagValue g' t = tagValue g t)"

definition ready :: "('s, 'e) PgnEnv \<Rightarrow> ('s, 'e) Reader \<Rightarrow> bool" where
  "ready env r = (m_moves (rGame r) \<noteq> [] \<or> fst (firstMove env r))"

definition boardBefore :: "('s, 'e) PgnEnv \<Rightarrow> ('s, 'e) Reader \<Rightarrow> 's" where
  "boardBefore env r = (if m_moves (rGame r) = [] then rBoard (snd (firstMove env r)) else rBoard r)"

definition resultToks :: "string \<Rightarrow> Token list" where
  "resultToks res = (if res = [] then [] else [PgnResult res])"

fun startsTag :: "string \<Rightarrow> bool" where
  "startsTag [] = False"
| "startsTag (c # cs) = (if isSpace c then startsTag cs else c = CHR ''['')"

subsection \<open>Concrete games\<close>

definition exGame :: PgnGame where
  "exGame =
     (setTag (setTag (setTag (setTag PgnGame_init ''White'' ''A'') ''Black'' ''B'')
        ''Result'' ''1-0'') ''ECO'' ''C20'')
       \<lparr>m_moves := [mv ''e4'' [], mv ''e5'' ''book'', mv ''Nf3'' []]\<rparr>"

definition exLong :: PgnGame where
  "exLong = (setTag PgnGame_init ''Result'' ''1-0'')\<lparr>m_moves := [mv ''e4'' (replicate 80 CHR ''x'')]\<rparr>"

text \<open>
  A reader's environment: a board that counts the plies played and takes every string
  that is not empty for a move, only the standard variant, and no opening tree.
\<close>

definition exPgnEnv :: "(nat, nat) PgnEnv" where
  "exPgnEnv =
     \<lparr>setVariant = (\<lambda>s v. if v = ''standard'' then Some s else None),
      variantOf = (\<lambda>s. ''standard''),
      isRandomVariant = (\<lambda>s. False),
      defaultFenString = (\<lambda>s. ''startpos''),
      setFenString = (\<lambda>s f. Some 0),
      startingSide = (\<lambda>s. White),
      moveFromString = (\<lambda>s str. if str = [] then None else Some (length str)),
      keyOf = (\<lambda>s. s),
      genericMove = (\<lambda>s m. m),
      makeMove = (\<lambda>s m. Suc s),
      ecoRoot = None,
      ecoChild = (\<lambda>e str. None),
      ecoIsLeaf = (\<lambda>e. False),
      ecoCode = (\<lambda>e. []),
      ecoOpening = (\<lambda>e. []),
      ecoVariation = (\<lambda>e. [])\<rparr>"


section \<open>The game conductor (chessgame.cpp)\<close>

text \<open>
  \<open>Chess::Board\<close>, \<open>ChessPlayer\<close> and \<open>MoveEvaluation::isEmpty\<close> are declared
  outside the sources.  The board is a type parameter; the queries and the update that
  the conductor makes of it, and the emptiness test of an evaluation, are parameters of
  the model.  A player is a pointer, modelled as a handle with 0
  for the null pointer, and the calls the conductor makes on its players and the
  signals it emits are returned as a list of events.
\<close>

record 'b GameEnv =
  boardSideToMove :: "'b \<Rightarrow> Side"
  boardIsLegalMove :: "'b \<Rightarrow> Move \<Rightarrow> bool"
  boardMakeMove :: "'b \<Rightarrow> Move \<Rightarrow> 'b"
  boardResult :: "'b \<Rightarrow> Result"
  evalIsEmpty :: "MoveEvaluation \<Rightarrow> bool"

text \<open>
  The fields of \<open>ChessGame\<close> and those of its base class that the slots write:
  \<open>m_result\<close> and \<open>m_moves\<close> are named \<open>m_result_g\<close> and \<open>m_moves_g\<close> here.
\<close>

record 'b ChessGame =
  m_board :: 'b
  m_player :: "nat \<times> nat"
  m_gameInProgress :: bool
  m_result_g :: Result
  m_moves_g :: "Move list"
  m_comments :: "string list"

datatype GameEvent =
    PlayerMakeMove nat Move
  | PlayerGo nat
  | PlayerEndGame nat Result
  | ConnectPlayersReadyToGameEnded
  | SyncPlayers bool
  | EmitMoveMade Move
  | DebugWrongTurn nat

datatype GameError = AssertionFailed | NullPlayerPointer

definition playerToMove :: "'b GameEnv \<Rightarrow> 'b ChessGame \<Rightarrow> nat" where
  "playerToMove env g =
     (case boardSideToMove env (m_board g) of
        NoSide \<Rightarrow> 0
      | White \<Rightarrow> fst (m_player g)
      | Black \<Rightarrow> snd (m_player g))"

definition playerToWait :: "'b GameEnv \<Rightarrow> 'b ChessGame \<Rightarrow> nat" where
  "playerToWait env g =
     (case boardSideToMove env (m_board g) of
        NoSide \<Rightarrow> 0
      | White \<Rightarrow> snd (m_player g)
      | Black \<Rightarrow> fst (m_player g))"

definition endGame :: "'b ChessGame \<Rightarrow> GameError + ('b ChessGame \<times> GameEvent list)" where
  "endGame g =
     (if \<not> m_gameInProgress g then Inr (g, [])
      else if fst (m_player g) = 0 \<or> snd (m_player g) = 0 then Inl NullPlayerPointer
      else Inr (g\<lparr>m_gameInProgress := False\<rparr>,
                [PlayerEndGame (fst (m_player g)) (m_result_g g),
                 PlayerEndGame (snd (m_player g)) (m_result_g g),
                 ConnectPlayersReadyToGameEnded, SyncPlayers True]))"

text \<open>
  The comment that \<open>onMoveMade\<close> derives from the evaluation.  The score in pawns,
  \<open>QString::number((double)score / 100.0, 'f', 2)\<close>, is the score in centipawns with
  the decimal point two digits from the right.
\<close>

definition fixed2 :: "int \<Rightarrow> string" where
  "fixed2 s =
     (if s < 0 then ''-'' else [])
     @ digitsOf (nat \<bar>s\<bar> div 100)
     @ ''.'' @ [digitChar (nat \<bar>s\<bar> mod 100 div 10), digitChar (nat \<bar>s\<bar> mod 10)]"

definition evalComment :: "'b GameEnv \<Rightarrow> MoveEvaluation \<Rightarrow> string" where
  "evalComment env eval =
     (if evalIsEmpty env eval then []
      else
        (if depth eval > 0
         then (if score eval > 0 then ''+'' else []) @ fixed2 (score eval) @ ''/''
              @ number (depth eval) @ '' ''
         else [])
        @ number (cdiv (wrap32 (time eval + 500)) 1000) @ ''s'')"

text \<open>
  \<open>onMoveMade\<close>.  \<open>Q_ASSERT\<close> aborts the program in a build with assertions and is
  compiled out otherwise; \<open>asserts\<close> says which build runs.  \<open>sender\<close> is the player
  whose signal is delivered and \<open>eval\<close> is its evaluation.
\<close>

definition onMoveMade ::
  "bool \<Rightarrow> 'b GameEnv \<Rightarrow> 'b ChessGame \<Rightarrow> nat \<Rightarrow> MoveEvaluation \<Rightarrow> Move
     \<Rightarrow> GameError + ('b ChessGame \<times> GameEvent list)" where
  "onMoveMade asserts env g sender eval mov =
     (if asserts \<and> sender = 0 then Inl AssertionFailed
      else if asserts \<and> \<not> m_gameInProgress g then Inl AssertionFailed
      else if asserts \<and> \<not> boardIsLegalMove env (m_board g) mov then Inl AssertionFailed
      else if sender = 0 then Inl NullPlayerPointer
      else if sender \<noteq> playerToMove env g then Inr (g, [DebugWrongTurn sender])
      else
        let g1 = g\<lparr>m_comments := m_comments g @ [evalComment env eval],
                   m_moves_g := m_moves_g g @ [mov]\<rparr>
        in
        if playerToWait env g1 = 0 then Inl NullPlayerPointer
        else
          let g2 = g1\<lparr>m_board := boardMakeMove env (m_board g1) mov\<rparr>;
              g3 = g2\<lparr>m_result_g := boardResult env (m_board g2)\<rparr>
          in
          if isNone (m_result_g g3) then
            (if playerToMove env g3 = 0 then Inl NullPlayerPointer
             else Inr (g3, [PlayerMakeMove (playerToWait env g1) mov,
                            PlayerGo (playerToMove env g3), EmitMoveMade mov]))
          else
            (case endGame g3 of
               Inl e \<Rightarrow> Inl e
             | Inr (g4, evs) \<Rightarrow>
                 Inr (g4, PlayerMakeMove (playerToWait env g1) mov # evs @ [EmitMoveMade mov])))"

definition onForfeit :: "'b ChessGame \<Rightarrow> Result \<Rightarrow> GameError + ('b ChessGame \<times> GameEvent list)" where
  "onForfeit g result =
     (if \<not> m_gameInProgress g then Inr (g, [])
      else endGame (g\<lparr>m_result_g := result\<rparr>))"

subsection \<open>A concrete conductor\<close>

text \<open>
  A board that records the plies played: White moves on even counts, every move is
  legal and the board never reports a result.
\<close>

definition exEnv :: "nat GameEnv" where
  "exEnv =
     \<lparr>boardSideToMove = (\<lambda>b. if even b then White else Black),
      boardIsLegalMove = (\<lambda>b m. True),
      boardMakeMove = (\<lambda>b m. Suc b),
      boardResult = (\<lambda>b. nullResult),
      evalIsEmpty = (\<lambda>e. depth e \<le> 0)\<rparr>"

definition exEnded :: "nat ChessGame" where
  "exEnded =
     \<lparr>m_board = 2, m_player = (11, 12), m_gameInProgress = False,
      m_result_g = mkResult Timeout Black [], m_moves_g = [52, 55],
      m_comments = [''+0.25/8 1s'', ''-0.10/9 2s'']\<rparr>"

section \<open>Properties of the adjudicator\<close>

lemma setResignAt_Some: "s \<noteq> NoSide \<Longrightarrow> \<exists>rc. setResignAt p s v = Some rc"
  by (cases p; cases s) auto

lemma resignAt_Some: "s \<noteq> NoSide \<Longrightarrow> \<exists>c. resignAt p s = Some c"
  by (cases p; cases s) auto

lemma opposite_NoSide: "opposite s = NoSide \<longleftrightarrow> s = NoSide"
  by (cases s) auto

lemma resignAt_setResignAt:
  "setResignAt p s v = Some rc \<Longrightarrow> resignAt rc s = Some v"
  by (cases p; cases s) auto

lemma resignAt_setResignAt_other:
  "setResignAt p s v = Some rc \<Longrightarrow> resignAt rc (opposite s) = resignAt p (opposite s)"
  by (cases p; cases s) auto

lemma tcecWin_neq_tcecDraw: "tcecWin s \<noteq> tcecDraw"
  by (simp add: tcecWin_def tcecDraw_def mkResult_def)

lemma isNone_neq_tcecDraw: "isNone r \<Longrightarrow> r \<noteq> tcecDraw"
  by (auto simp: isNone_def tcecDraw_def mkResult_def)

text \<open>
  Claim C1, as the code has it.  A call of \<open>addEval\<close> with an evaluation of depth at
  most 0, on which the tablebase probe is silent, zeroes the draw counter and the
  resign counter of the side that moved, leaves the other side's resign counter as it
  was, and does not produce a terminal result: the result field is left as it was
  (tablebase adjudication disabled) or overwritten with the board's empty tablebase
  result (enabled).
\<close>

theorem addEval_empty:
  assumes "depth eval \<le> 0" and "tbSilent a board" and "sideToMove board \<noteq> NoSide"
  shows "\<exists>a'. addEval a board eval = Inr a'
           \<and> m_drawScoreCount a' = 0
           \<and> resignAt (m_resignScoreCount a') (opposite (sideToMove board)) = Some 0
           \<and> resignAt (m_resignScoreCount a') (sideToMove board)
               = resignAt (m_resignScoreCount a) (sideToMove board)
           \<and> m_result a' = (if m_tbEnabled a then tablebaseResult board else m_result a)
           \<and> (isNone (m_result a') \<or> m_result a' = m_result a)"
proof -
  let ?s = "opposite (sideToMove board)"
  from assms(3) have "?s \<noteq> NoSide" by (simp add: opposite_NoSide)
  then obtain rc where rc: "setResignAt (m_resignScoreCount a) ?s 0 = Some rc"
    using setResignAt_Some by blast
  have other: "resignAt rc (sideToMove board) = resignAt (m_resignScoreCount a) (sideToMove board)"
    using resignAt_setResignAt_other [OF rc] assms(3) by (cases "sideToMove board") auto
  show ?thesis
    using assms(1,2) rc resignAt_setResignAt [OF rc] other
    by (auto simp: addEval_def tbSilent_def Let_def)
qed


theorem addEval_empty_witness:
  "depth (evalOf 0 25) \<le> 0 \<and> tbSilent (adjWith 3 (2, 5) False) (boardAt Black 9 nullResult)
   \<and> sideToMove (boardAt Black 9 nullResult) \<noteq> NoSide
   \<and> addEval (adjWith 3 (2, 5) False) (boardAt Black 9 nullResult) (evalOf 0 25)
       = Inr (adjWith 0 (0, 5) False)"
  using addEval_empty [of "evalOf 0 25" "adjWith 3 (2, 5) False" "boardAt Black 9 nullResult"]
  by (simp add: evalOf_def adjWith_def boardAt_def tbSilent_def nullResult_def mkResult_def
        isNone_def addEval_def setTablebaseAdjudication_def setResignThreshold_def
        setDrawThreshold_def GameAdjudicator_init_def)

text \<open>
  Claim C1 as stated fails when tablebase adjudication is enabled and the board has a
  tablebase result: the call with an evaluation of depth 0 stores that terminal result
  and returns before the counters are touched (draw counter 3 and White's resign
  counter 2 stay).
\<close>

theorem addEval_empty_tablebase_counterexample:
  "depth (evalOf 0 25) \<le> 0
   \<and> addEval (adjWith 3 (2, 5) True) (boardAt Black 9 (mkResult Win White [])) (evalOf 0 25)
       = Inr ((adjWith 3 (2, 5) True)\<lparr>m_result := mkResult Win White []\<rparr>)
   \<and> \<not> isNone (mkResult Win White [])
   \<and> m_drawScoreCount ((adjWith 3 (2, 5) True)\<lparr>m_result := mkResult Win White []\<rparr>) = 3
   \<and> resignAt (m_resignScoreCount ((adjWith 3 (2, 5) True)\<lparr>m_result := mkResult Win White []\<rparr>))
        (opposite (sideToMove (boardAt Black 9 (mkResult Win White [])))) = Some 2"
  by (simp add: evalOf_def adjWith_def boardAt_def mkResult_def
        isNone_def addEval_def setTablebaseAdjudication_def setResignThreshold_def
        setDrawThreshold_def GameAdjudicator_init_def)

lemma addEval_step:
  assumes "tbSilent a b" and "sideToMove b \<noteq> NoSide"
  shows "\<exists>a'. addEval a b e = Inr a' \<and> sameConfig a a'
           \<and> m_drawScoreCount a' =
               (if depth e \<le> 0 then 0
                else if m_drawMoveNum a > 0
                  then (if qAbs (score e) \<le> m_drawScore a
                        then wrap32 (m_drawScoreCount a + 1) else 0)
                  else m_drawScoreCount a)"
proof -
  let ?s = "opposite (sideToMove b)"
  from assms(2) have ns: "?s \<noteq> NoSide" by (simp add: opposite_NoSide)
  obtain rc where rc: "setResignAt (m_resignScoreCount a) ?s 0 = Some rc"
    using setResignAt_Some [OF ns] by blast
  obtain c where c: "resignAt (m_resignScoreCount a) ?s = Some c"
    using resignAt_Some [OF ns] by blast
  show ?thesis
    using assms(1) rc c
    by (auto simp: addEval_def tbSilent_def Let_def sameConfig_def)
qed

lemma tbSilent_sameConfig: "sameConfig a a' \<Longrightarrow> tbSilent a' b = tbSilent a b"
  by (simp add: sameConfig_def tbSilent_def)

lemma sameConfig_trans: "sameConfig a a1 \<Longrightarrow> sameConfig a1 a2 \<Longrightarrow> sameConfig a a2"
  by (simp add: sameConfig_def)

lemma spec_drawRun_Cons_all:
  assumes "\<forall>c\<in>set cs. spec_counts ds (snd c)"
  shows "spec_drawRun ds (c # cs)
           = (if spec_counts ds (snd c) then int (length cs) + 1 else int (length cs))"
proof -
  have "takeWhile (\<lambda>c. spec_counts ds (snd c)) (rev cs @ [c])
          = rev cs @ takeWhile (\<lambda>c. spec_counts ds (snd c)) [c]"
    using assms takeWhile_append2 [of "rev cs" "\<lambda>c. spec_counts ds (snd c)" "[c]"] by simp
  then show ?thesis by (simp add: spec_drawRun_def)
qed

lemma spec_drawRun_Cons_not_all:
  assumes "\<not> (\<forall>c\<in>set cs. spec_counts ds (snd c))"
  shows "spec_drawRun ds (c # cs) = spec_drawRun ds cs"
proof -
  from assms obtain x where "x \<in> set (rev cs)" and "\<not> spec_counts ds (snd x)" by auto
  then have "takeWhile (\<lambda>c. spec_counts ds (snd c)) (rev cs @ [c])
          = takeWhile (\<lambda>c. spec_counts ds (snd c)) (rev cs)"
    by (simp add: takeWhile_append1)
  then show ?thesis by (simp add: spec_drawRun_def)
qed

lemma spec_drawRun_all:
  "\<forall>c\<in>set cs. spec_counts ds (snd c) \<Longrightarrow> spec_drawRun ds cs = int (length cs)"
proof -
  assume "\<forall>c\<in>set cs. spec_counts ds (snd c)"
  then have "takeWhile (\<lambda>c. spec_counts ds (snd c)) (rev cs) = rev cs"
    by (simp add: takeWhile_eq_all_conv)
  then show ?thesis unfolding spec_drawRun_def by (simp only: length_rev)
qed

lemma addEvals_append:
  "addEvals a (xs @ ys) = (case addEvals a xs of Inl e \<Rightarrow> Inl e | Inr a' \<Rightarrow> addEvals a' ys)"
  by (induction xs arbitrary: a) (auto split: sum.splits)

lemma wrap32_id: "INT_MIN \<le> x \<Longrightarrow> x \<le> INT_MAX \<Longrightarrow> wrap32 x = x"
  by (simp add: wrap32_def INT_MIN_def INT_MAX_def)

lemma qAbs_abs: "INT_MIN < x \<Longrightarrow> qAbs x = \<bar>x\<bar>"
  by (simp add: qAbs_def wrap32_def INT_MIN_def)

text \<open>
  The counter of the code against the count of the specification: over any sequence of
  calls on which the tablebase probe stays silent, no score is \<open>INT_MIN\<close> and the
  counter stays below \<open>INT_MAX\<close>, the counter has grown by the length of the sequence
  when every evaluation counted, and otherwise it is the number of most recent
  consecutive evaluations that counted.
\<close>

lemma addEvals_counter:
  assumes "m_drawMoveNum a > 0"
      and "\<forall>c\<in>set cs. tbSilent a (fst c) \<and> sideToMove (fst c) \<noteq> NoSide
              \<and> INT_MIN < score (snd c)"
      and "0 \<le> m_drawScoreCount a"
      and "m_drawScoreCount a + int (length cs) \<le> INT_MAX"
  shows "\<exists>a'. addEvals a cs = Inr a' \<and> sameConfig a a'
           \<and> m_drawScoreCount a' =
               (if \<forall>c\<in>set cs. spec_counts (m_drawScore a) (snd c)
                then m_drawScoreCount a + int (length cs)
                else spec_drawRun (m_drawScore a) cs)"
  using assms
proof (induction cs arbitrary: a)
  case Nil
  then show ?case by (simp add: sameConfig_def)
next
  case (Cons c cs)
  from Cons.prems have sil: "tbSilent a (fst c)" and ns: "sideToMove (fst c) \<noteq> NoSide"
    and sc: "INT_MIN < score (snd c)"
    by simp_all
  from addEval_step [OF sil ns, of "snd c"] obtain a1 where
    a1: "addEval a (fst c) (snd c) = Inr a1" and cfg: "sameConfig a a1"
    and cnt: "m_drawScoreCount a1 =
               (if depth (snd c) \<le> 0 then 0
                else if m_drawMoveNum a > 0
                  then (if qAbs (score (snd c)) \<le> m_drawScore a
                        then wrap32 (m_drawScoreCount a + 1) else 0)
                  else m_drawScoreCount a)"
    by blast
  have inc: "wrap32 (m_drawScoreCount a + 1) = m_drawScoreCount a + 1"
    using Cons.prems(3,4) by (intro wrap32_id) (simp_all add: INT_MIN_def)
  have cnt': "m_drawScoreCount a1 =
      (if spec_counts (m_drawScore a) (snd c) then m_drawScoreCount a + 1 else 0)"
    using cnt Cons.prems(1) inc qAbs_abs [OF sc] by (auto simp: spec_counts_def)
  have num: "m_drawMoveNum a1 > 0" and ds: "m_drawScore a1 = m_drawScore a"
    using cfg Cons.prems(1) by (simp_all add: sameConfig_def)
  have prem: "\<forall>c\<in>set cs. tbSilent a1 (fst c) \<and> sideToMove (fst c) \<noteq> NoSide
                \<and> INT_MIN < score (snd c)"
    using Cons.prems(2) tbSilent_sameConfig [OF cfg] by simp
  have nonneg: "0 \<le> m_drawScoreCount a1"
    using cnt' Cons.prems(3) by simp
  have bound: "m_drawScoreCount a1 + int (length cs) \<le> INT_MAX"
    using cnt' Cons.prems(3,4) by simp
  from Cons.IH [OF num prem nonneg bound] obtain a' where
    a': "addEvals a1 cs = Inr a'" and cfg': "sameConfig a1 a'"
    and cnt2: "m_drawScoreCount a' =
               (if \<forall>c\<in>set cs. spec_counts (m_drawScore a) (snd c)
                then m_drawScoreCount a1 + int (length cs)
                else spec_drawRun (m_drawScore a) cs)"
    unfolding ds by blast
  have run: "addEvals a (c # cs) = Inr a'"
    using a1 a' by simp
  have "m_drawScoreCount a' =
               (if \<forall>c\<in>set (c # cs). spec_counts (m_drawScore a) (snd c)
                then m_drawScoreCount a + int (length (c # cs))
                else spec_drawRun (m_drawScore a) (c # cs))"
  proof (cases "\<forall>x\<in>set cs. spec_counts (m_drawScore a) (snd x)")
    case True
    then show ?thesis
      using cnt2 cnt' spec_drawRun_Cons_all [OF True, of c] by auto
  next
    case False
    then show ?thesis
      using cnt2 spec_drawRun_Cons_not_all [OF False, of c] by auto
  qed
  with run sameConfig_trans [OF cfg cfg'] show ?case by blast
qed

lemma addEval_result:
  assumes "tbSilent a b" and "m_drawMoveNum a > 0" and "m_result a \<noteq> tcecDraw"
      and "addEval a b e = Inr a'"
  shows "m_result a' = tcecDraw \<longleftrightarrow>
           (depth e > 0 \<and> cdiv (plyCount b) 2 \<ge> m_drawMoveNum a
            \<and> m_drawScoreCount a' \<ge> wrap32 (m_drawMoveCount a * 2))"
  using assms
  by (auto simp: addEval_def tbSilent_def Let_def tcecWin_neq_tcecDraw
           dest: isNone_neq_tcecDraw split: if_splits option.splits)

text \<open>
  Claim C2, as the code has it.  Take an adjudicator with \<open>drawMoveNum > 0\<close>, a draw
  counter of zero and a \<open>drawMoveCount\<close> whose double is an \<open>int\<close>, and any sequence
  of at most \<open>INT_MAX\<close> calls of \<open>addEval\<close> on which the tablebase probe stays silent
  and no score is \<open>INT_MIN\<close>.  Every call returns; after the last call the draw counter
  is the number of most recent consecutive evaluations that have a depth and an
  absolute score within \<open>drawScore\<close>, so an evaluation beyond the bound leaves it at
  zero; and, unless the result was the draw already, the last call makes the result the
  adjudicated draw "TCEC draw rule" exactly when its evaluation has a depth, the
  full-move count \<open>plyCount / 2\<close> has reached \<open>drawMoveNum\<close> and the counter has
  reached \<open>2 * drawMoveCount\<close>.
\<close>

theorem draw_rule:
  assumes "m_drawMoveNum a > 0" and "m_drawScoreCount a = 0"
      and "\<forall>c\<in>set (cs @ [(b, e)]). tbSilent a (fst c) \<and> sideToMove (fst c) \<noteq> NoSide
              \<and> INT_MIN < score (snd c)"
      and "int (length (cs @ [(b, e)])) \<le> INT_MAX"
      and "INT_MIN \<le> 2 * m_drawMoveCount a" and "2 * m_drawMoveCount a \<le> INT_MAX"
  shows "\<exists>a1 a'. addEvals a cs = Inr a1 \<and> addEval a1 b e = Inr a'
           \<and> addEvals a (cs @ [(b, e)]) = Inr a'
           \<and> m_drawScoreCount a' = spec_drawRun (m_drawScore a) (cs @ [(b, e)])
           \<and> (\<bar>score e\<bar> > m_drawScore a \<longrightarrow> m_drawScoreCount a' = 0)
           \<and> (m_result a1 \<noteq> tcecDraw \<longrightarrow>
                (m_result a' = tcecDraw \<longleftrightarrow>
                   depth e > 0 \<and> cdiv (plyCount b) 2 \<ge> m_drawMoveNum a
                   \<and> spec_drawRun (m_drawScore a) (cs @ [(b, e)]) \<ge> 2 * m_drawMoveCount a))"
proof -
  let ?all = "cs @ [(b, e)]"
  from assms(3) have pre: "\<forall>c\<in>set cs. tbSilent a (fst c) \<and> sideToMove (fst c) \<noteq> NoSide
                             \<and> INT_MIN < score (snd c)"
    and sil: "tbSilent a b" and ns: "sideToMove b \<noteq> NoSide"
    by simp_all
  have z: "0 \<le> m_drawScoreCount a" using assms(2) by simp
  have len: "m_drawScoreCount a + int (length ?all) \<le> INT_MAX"
    using assms(2,4) by simp
  have len': "m_drawScoreCount a + int (length cs) \<le> INT_MAX"
    using len by simp
  from addEvals_counter [OF assms(1) pre z len'] obtain a1 where
    a1: "addEvals a cs = Inr a1" and cfg: "sameConfig a a1" by blast
  from addEval_step [OF _ ns, of a1 e] sil tbSilent_sameConfig [OF cfg] obtain a' where
    a': "addEval a1 b e = Inr a'" by blast
  from addEvals_counter [OF assms(1) assms(3) z len] obtain a2 where
    a2: "addEvals a ?all = Inr a2"
    and cnt: "m_drawScoreCount a2 =
               (if \<forall>c\<in>set ?all. spec_counts (m_drawScore a) (snd c)
                then m_drawScoreCount a + int (length ?all)
                else spec_drawRun (m_drawScore a) ?all)"
    by blast
  have app: "addEvals a ?all = Inr a'"
    using a1 a' by (simp add: addEvals_append)
  with a2 have eq: "a2 = a'" by simp
  have run: "m_drawScoreCount a' = spec_drawRun (m_drawScore a) ?all"
    using cnt assms(2) spec_drawRun_all [of ?all "m_drawScore a"] unfolding eq by auto
  have reset: "\<bar>score e\<bar> > m_drawScore a \<longrightarrow> m_drawScoreCount a' = 0"
    unfolding run by (simp add: spec_drawRun_def spec_counts_def)
  have num1: "m_drawMoveNum a1 > 0" and sil1: "tbSilent a1 b"
    using cfg assms(1) sil tbSilent_sameConfig [OF cfg] by (simp_all add: sameConfig_def)
  have dbl: "wrap32 (m_drawMoveCount a1 * 2) = 2 * m_drawMoveCount a"
    using wrap32_id [OF assms(5,6)] cfg by (simp add: sameConfig_def mult.commute)
  have res: "m_result a1 \<noteq> tcecDraw \<longrightarrow>
                (m_result a' = tcecDraw \<longleftrightarrow>
                   depth e > 0 \<and> cdiv (plyCount b) 2 \<ge> m_drawMoveNum a
                   \<and> spec_drawRun (m_drawScore a) ?all \<ge> 2 * m_drawMoveCount a)"
  proof
    assume nd: "m_result a1 \<noteq> tcecDraw"
    from addEval_result [OF sil1 num1 nd a'] cfg
    show "m_result a' = tcecDraw \<longleftrightarrow>
                   depth e > 0 \<and> cdiv (plyCount b) 2 \<ge> m_drawMoveNum a
                   \<and> spec_drawRun (m_drawScore a) ?all \<ge> 2 * m_drawMoveCount a"
      unfolding run dbl by (simp add: sameConfig_def)
  qed
  from a1 a' app run reset res show ?thesis by blast
qed

lemmas adj_eval_simps = evalOf_def adjWith_def boardAt_def tbSilent_def nullResult_def
  mkResult_def isNone_def addEval_def setTablebaseAdjudication_def setResignThreshold_def
  setDrawThreshold_def GameAdjudicator_init_def tcecDraw_def cdiv_def wrap32_def qAbs_def
  INT_MIN_def INT_MAX_def

theorem draw_rule_witness:
  "m_drawMoveNum (adjWith 0 (0, 0) False) > 0 \<and> m_drawScoreCount (adjWith 0 (0, 0) False) = 0
   \<and> tbSilent (adjWith 0 (0, 0) False) (boardAt Black 3 nullResult)
   \<and> tbSilent (adjWith 0 (0, 0) False) (boardAt White 4 nullResult)
   \<and> INT_MIN < score (evalOf 9 4) \<and> INT_MIN < score (evalOf 8 (-7))
   \<and> int (length ([(boardAt Black 3 nullResult, evalOf 9 4)]
                    @ [(boardAt White 4 nullResult, evalOf 8 (-7))])) \<le> INT_MAX
   \<and> INT_MIN \<le> 2 * m_drawMoveCount (adjWith 0 (0, 0) False)
   \<and> 2 * m_drawMoveCount (adjWith 0 (0, 0) False) \<le> INT_MAX
   \<and> spec_drawRun (m_drawScore (adjWith 0 (0, 0) False))
        ([(boardAt Black 3 nullResult, evalOf 9 4)] @ [(boardAt White 4 nullResult, evalOf 8 (-7))]) = 2
   \<and> addEvals (adjWith 0 (0, 0) False)
        ([(boardAt Black 3 nullResult, evalOf 9 4)] @ [(boardAt White 4 nullResult, evalOf 8 (-7))])
       = Inr ((adjWith 2 (0, 0) False)\<lparr>m_result := tcecDraw\<rparr>)"
  using draw_rule [of "adjWith 0 (0, 0) False" "[(boardAt Black 3 nullResult, evalOf 9 4)]"
      "boardAt White 4 nullResult" "evalOf 8 (-7)"]
  by (simp add: adj_eval_simps spec_drawRun_def spec_counts_def)

text \<open>
  Claim C2 as stated fails when tablebase adjudication is enabled and the board has a
  tablebase result: the call returns before the draw rule, so an evaluation of score
  500 against a bound of 10 leaves the draw counter at 3.
\<close>

theorem draw_rule_tablebase_counterexample:
  "m_drawMoveNum (adjWith 3 (0, 0) True) > 0
   \<and> \<bar>score (evalOf 12 500)\<bar> > m_drawScore (adjWith 3 (0, 0) True)
   \<and> addEval (adjWith 3 (0, 0) True) (boardAt Black 9 (mkResult Win White [])) (evalOf 12 500)
       = Inr ((adjWith 3 (0, 0) True)\<lparr>m_result := mkResult Win White []\<rparr>)
   \<and> m_drawScoreCount ((adjWith 3 (0, 0) True)\<lparr>m_result := mkResult Win White []\<rparr>) = 3"
  by (simp add: adj_eval_simps)

text \<open>
  At the score \<open>INT_MIN\<close> the code and the specification's count part: \<open>qAbs\<close> of it
  is \<open>INT_MIN\<close> again, which is within every bound, so the evaluation is counted.
\<close>

lemma addEval_INT_MIN_counted:
  "addEval (adjWith 3 (0, 0) False) (boardAt Black 1 nullResult) (evalOf 12 INT_MIN)
     = Inr (adjWith 4 (1, 0) False)"
  by (simp add: adj_eval_simps)

section \<open>Properties of the match controller\<close>

lemma crem_2_zero: "crem g 2 = 0 \<longleftrightarrow> g mod 2 = 0"
proof (cases "g \<ge> 0")
  case True
  then have "crem g 2 = g mod 2"
    by (cases "g = 0") (simp_all add: crem_def cdiv_def minus_mult_div_eq_mod)
  then show ?thesis by simp
next
  case False
  then have "crem g 2 = g + 2 * ((- g) div 2)"
    by (simp add: crem_def cdiv_def)
  then show ?thesis by presburger
qed

text \<open>
  Claim C7.  With two engines in the match, \<open>start\<close> for game index \<open>g\<close> makes the
  engine at index \<open>g mod 2\<close> White and the other engine Black: engines 0 and 1 when
  \<open>g\<close> is even, swapped when \<open>g\<close> is odd.  The test of the source, the C++ remainder
  \<open>g % 2 == 0\<close>, agrees with \<open>g mod 2 = 0\<close> on every integer.
\<close>

theorem start_colours:
  assumes "length (m_engines m) \<ge> 2"
  shows "\<exists>m' g. start m = Inr (m', g)
           \<and> m_white m' = Some (nat (m_currentGame m mod 2))
           \<and> m_black m' = Some (nat ((m_currentGame m + 1) mod 2))
           \<and> whitePlayer g = engine (m_engines m ! nat (m_currentGame m mod 2))
           \<and> blackPlayer g = engine (m_engines m ! nat ((m_currentGame m + 1) mod 2))
           \<and> (if even (m_currentGame m)
              then whitePlayer g = engine (m_engines m ! 0) \<and> blackPlayer g = engine (m_engines m ! 1)
              else whitePlayer g = engine (m_engines m ! 1) \<and> blackPlayer g = engine (m_engines m ! 0))"
proof (cases "m_currentGame m mod 2 = 0")
  case True
  then have "(m_currentGame m + 1) mod 2 = 1" "even (m_currentGame m)" by presburger+
  with True assms show ?thesis
    by (simp add: start_def crem_2_zero Let_def)
next
  case False
  then have "m_currentGame m mod 2 = 1" "(m_currentGame m + 1) mod 2 = 0" "odd (m_currentGame m)"
    by presburger+
  with False assms show ?thesis
    by (simp add: start_def crem_2_zero Let_def)
qed


lemma timers_append: "timers (xs @ ys) = timers xs @ timers ys"
  by (induction xs rule: timers.induct) auto

lemma bumpWins_ok:
  assumes "p = Some i" and "i < length (m_engines m)"
  shows "\<exists>m1. bumpWins m p = Inr m1 \<and> length (m_engines m1) = length (m_engines m)
           \<and> m_currentGame m1 = m_currentGame m \<and> m_gameCount m1 = m_gameCount m"
  using assms by (simp add: bumpWins_def)

lemma onGameEnded_tally:
  assumes "gameRunning m"
  shows "\<exists>m1. (if isDraw r then Inr (m\<lparr>m_drawCount := m_drawCount m + 1\<rparr>)
            else if gameWinner r = White then bumpWins m (m_white m)
            else if gameWinner r = Black then bumpWins m (m_black m)
            else Inr m) = Inr m1 \<and> length (m_engines m1) = length (m_engines m)
           \<and> m_currentGame m1 = m_currentGame m \<and> m_gameCount m1 = m_gameCount m"
proof -
  from assms obtain w b where w: "m_white m = Some w" "w < length (m_engines m)"
    and b: "m_black m = Some b" "b < length (m_engines m)"
    by (auto simp: gameRunning_def split: option.splits)
  show ?thesis
    using bumpWins_ok [OF w] bumpWins_ok [OF b] by auto
qed

text \<open>
  Claim C8.  When game \<open>g\<close> of a match ends, with \<open>g\<close> below the configured game
  count, \<open>onGameEnded\<close> counts the game and finishes the match (the engines are quit,
  \<open>finished\<close> is emitted, no timer is set) exactly when \<open>g + 1\<close> equals the game
  count, or the result code is \<open>ResultError\<close> or \<open>WinByDisconnection\<close>; otherwise
  its only timer is the single shot of 2000 milliseconds to \<open>start\<close>, and the index of
  the next game is again below the game count.
\<close>

theorem onGameEnded_next:
  assumes "gameRunning m" and "m_currentGame m < m_gameCount m"
  shows "\<exists>m' as. onGameEnded m r = Inr (m', as)
           \<and> m_currentGame m' = m_currentGame m + 1
           \<and> (matchFinished as \<longleftrightarrow>
                 m_currentGame m + 1 = m_gameCount m
                 \<or> code r = CodeResultError \<or> code r = WinByDisconnection)
           \<and> (nextGameScheduled as \<longleftrightarrow>
                 \<not> (m_currentGame m + 1 = m_gameCount m
                    \<or> code r = CodeResultError \<or> code r = WinByDisconnection))
           \<and> (nextGameScheduled as \<longrightarrow> m_currentGame m' < m_gameCount m')"
proof -
  from onGameEnded_tally [OF assms(1), of r] obtain m1 where
    m1: "(if isDraw r then Inr (m\<lparr>m_drawCount := m_drawCount m + 1\<rparr>)
            else if gameWinner r = White then bumpWins m (m_white m)
            else if gameWinner r = Black then bumpWins m (m_black m)
            else Inr m) = Inr m1"
    and len: "length (m_engines m1) = length (m_engines m)"
    and cur: "m_currentGame m1 = m_currentGame m" and cnt: "m_gameCount m1 = m_gameCount m"
    by blast
  from assms(1) have two: "\<not> length (m_engines m) < 2" by (simp add: gameRunning_def)
  show ?thesis
    unfolding onGameEnded_def m1
    using len cur cnt two assms(2)
    by (auto simp: Let_def matchFinished_def nextGameScheduled_def timers_append)
qed


theorem onGameEnded_next_witness:
  "gameRunning (exPlaying 3 10)
   \<and> m_currentGame (exPlaying 3 10) < m_gameCount (exPlaying 3 10)
   \<and> onGameEnded (exPlaying 3 10) (exResult (OtherCode 0))
        = Inr ((exPlaying 4 10)\<lparr>m_engines := [exEngine ''a'' 11, (exEngine ''b'' 12)\<lparr>wins := 1\<rparr>]\<rparr>,
               [DeleteGame, SingleShot 2000 ''start''])
   \<and> onGameEnded (exPlaying 9 10) (exResult (OtherCode 0))
        = Inr ((exPlaying 10 10)\<lparr>m_engines := [exEngine ''a'' 11, (exEngine ''b'' 12)\<lparr>wins := 1\<rparr>]\<rparr>,
               [DeleteGame, KillEngines, EmitFinished])
   \<and> onGameEnded (exPlaying 3 10) (exResult WinByDisconnection)
        = Inr ((exPlaying 4 10)\<lparr>m_engines := [exEngine ''a'' 11, (exEngine ''b'' 12)\<lparr>wins := 1\<rparr>]\<rparr>,
               [DeleteGame, KillEngines, EmitFinished])"
  using onGameEnded_next [of "exPlaying 3 10" "exResult (OtherCode 0)"]
  by (simp add: exPlaying_def exMatch_def exEngine_def exConfig_def exSettings_def exResult_def
        EngineMatch_init_def gameRunning_def onGameEnded_def bumpWins_def Let_def)

theorem start_colours_witness:
  "length (m_engines (exMatch 3 10)) \<ge> 2
   \<and> start (exMatch 3 10) = Inr (exPlaying 3 10, \<lparr>whitePlayer = 12, blackPlayer = 11\<rparr>)
   \<and> nat (m_currentGame (exMatch 3 10) mod 2) = 1"
  using start_colours [of "exMatch 3 10"]
  by (simp add: exPlaying_def exMatch_def exEngine_def exConfig_def exSettings_def
        EngineMatch_init_def start_def crem_def cdiv_def Let_def)

lemma addEngine_length:
  "length (m_engines m) \<le> 2 \<Longrightarrow> length (m_engines (fst (addEngine m c st))) \<le> 2"
  by (simp add: addEngine_def)

lemma addEngines_length:
  "length (m_engines m) \<le> 2 \<Longrightarrow> length (m_engines (addEngines m cs)) \<le> 2"
  by (induction cs arbitrary: m) (simp_all add: addEngine_length)

text \<open>
  Claim C9.  \<open>addEngine\<close> leaves the match as it was when the engine list holds two
  entries (or more) or the configuration's command is empty, and in the second case it
  logs no warning; otherwise it appends exactly one entry, the new engine with no wins
  and null engine and process pointers.  It keeps a list of at most two engines at most
  two long, so the list built from the constructor's empty one by any sequence of
  \<open>addEngine\<close> calls never holds more than two engines.
\<close>

theorem addEngine_cap:
  "(length (m_engines m) \<ge> 2 \<or> command c = [] \<longrightarrow> fst (addEngine m c st) = m)
   \<and> (length (m_engines m) < 2 \<and> command c = [] \<longrightarrow> snd (addEngine m c st) = [])
   \<and> (length (m_engines m) < 2 \<and> command c \<noteq> [] \<longrightarrow>
        addEngine m c st =
          (m\<lparr>m_engines := m_engines m
                @ [\<lparr>config = c, settings = st, wins = 0, engine = 0, process = 0\<rparr>]\<rparr>, []))
   \<and> (length (m_engines m) \<le> 2 \<longrightarrow> length (m_engines (fst (addEngine m c st))) \<le> 2)
   \<and> length (m_engines (addEngines EngineMatch_init cs)) \<le> 2"
proof -
  have "length (m_engines EngineMatch_init) \<le> 2"
    by (simp add: EngineMatch_init_def)
  then have "length (m_engines (addEngines EngineMatch_init cs)) \<le> 2"
    by (rule addEngines_length)
  then show ?thesis
    by (simp add: addEngine_def)
qed

theorem addEngine_cap_witness:
  "length (m_engines (exMatch 0 1)) \<ge> 2
   \<and> addEngine (exMatch 0 1) (exConfig ''c'') exSettings
        = (exMatch 0 1, [''Only two engines can be added''])
   \<and> addEngine EngineMatch_init (exConfig []) exSettings = (EngineMatch_init, [])
   \<and> addEngine EngineMatch_init (exConfig ''a'') exSettings
        = (EngineMatch_init\<lparr>m_engines := [exEngine ''a'' 0]\<rparr>, [])
   \<and> length (m_engines (addEngines EngineMatch_init
        [(exConfig ''a'', exSettings), (exConfig [], exSettings), (exConfig ''b'', exSettings),
         (exConfig ''c'', exSettings)])) = 2"
  using addEngine_cap [of "exMatch 0 1" "exConfig ''c''" exSettings "[]"]
    addEngine_cap [of EngineMatch_init "exConfig []" exSettings
      "[(exConfig ''a'', exSettings), (exConfig [], exSettings), (exConfig ''b'', exSettings),
         (exConfig ''c'', exSettings)]"]
    addEngine_cap [of EngineMatch_init "exConfig ''a''" exSettings "[]"]
  by (simp add: exMatch_def exEngine_def exConfig_def exSettings_def EngineMatch_init_def
        addEngine_def)

section \<open>Properties of the PGN codec\<close>

lemma splitLines_nonempty: "splitLines s \<noteq> []"
  by (induction s) (auto split: list.splits)

lemma fits_splitLines:
  "fits n s \<longleftrightarrow>
     (n + length (hd (splitLines s)) \<le> 80 \<and> (\<forall>l\<in>set (tl (splitLines s)). length l \<le> 80))"
proof (induction s arbitrary: n)
  case Nil
  then show ?case by simp
next
  case (Cons c cs)
  obtain l ls where sp: "splitLines cs = l # ls"
    using splitLines_nonempty [of cs] by (cases "splitLines cs") auto
  show ?case
    using Cons.IH [of 0] Cons.IH [of "Suc n"] sp by auto
qed

lemma fits_lines: "fits 0 s \<longleftrightarrow> (\<forall>l\<in>set (splitLines s). length l \<le> 80)"
proof -
  obtain l ls where sp: "splitLines s = l # ls"
    using splitLines_nonempty [of s] by (cases "splitLines s") auto
  show ?thesis by (simp add: fits_splitLines sp)
qed

lemma fits_le: "fits n s \<Longrightarrow> n \<le> 80"
proof (induction s arbitrary: n)
  case Nil
  then show ?case by simp
next
  case (Cons c cs)
  show ?case
  proof (cases "c = newline")
    case True
    with Cons.prems show ?thesis by simp
  next
    case False
    with Cons.prems have "fits (Suc n) cs" by simp
    from Cons.IH [OF this] show ?thesis by simp
  qed
qed

lemma fits_append: "fits n (a @ b) \<longleftrightarrow> fits n a \<and> fits (endCol n a) b"
  by (induction a arbitrary: n) (auto dest: fits_le)

lemma fits_short: "n + length s \<le> 80 \<Longrightarrow> fits n s"
  by (induction s arbitrary: n) auto

lemma endCol_le: "endCol n s \<le> n + length s"
proof (induction s arbitrary: n)
  case Nil
  then show ?case by simp
next
  case (Cons c cs)
  show ?case using Cons.IH [of 0] Cons.IH [of "Suc n"] by auto
qed

lemma endCol_append: "endCol n (a @ b) = endCol (endCol n a) b"
  by (induction a arbitrary: n) auto

lemma fits_mono: "fits n s \<Longrightarrow> m \<le> n \<Longrightarrow> fits m s"
  by (induction s arbitrary: n m) (auto split: if_splits)

lemma endCol_mono: "m \<le> n \<Longrightarrow> endCol m s \<le> endCol n s"
  by (induction s arbitrary: n m) auto

text \<open>
  The loop keeps every line within 80 when each move's text is: \<open>col\<close> is the length
  of the line being written, bounded by the counter \<open>lineLength\<close> of the code.
\<close>

lemma writeMoves_fits:
  assumes "\<forall>t\<in>set (moveTokens mode ms i movenum side). length t \<le> 80"
      and "int col \<le> lineLength" and "lineLength \<le> 80"
  shows "fits col (fst (writeMoves mode ms i lineLength movenum side))
         \<and> int (endCol col (fst (writeMoves mode ms i lineLength movenum side)))
              \<le> snd (writeMoves mode ms i lineLength movenum side)
         \<and> snd (writeMoves mode ms i lineLength movenum side) \<le> 80"
  using assms
proof (induction ms arbitrary: i movenum side col lineLength)
  case Nil
  then show ?case by simp
next
  case (Cons data rest)
  let ?numbered = "side = 0 \<or> i = 0"
  let ?movenum = "if ?numbered then movenum + 1 else movenum"
  let ?str = "moveToken mode ?numbered ?movenum data"
  let ?fresh = "lineLength = 0 \<or> lineLength + int (length ?str) \<ge> 80"
  let ?out = "if ?fresh then newline # ?str else CHR '' '' # ?str"
  let ?ll = "if ?fresh then int (length ?str) else lineLength + (int (length ?str) + 1)"
  let ?side = "if side = 0 then 1 else (0::int)"
  let ?r = "writeMoves mode rest (i + 1) ?ll ?movenum ?side"
  have unfold: "writeMoves mode (data # rest) i lineLength movenum side = (?out @ fst ?r, snd ?r)"
    by (simp add: Let_def)
  from Cons.prems(1) have len: "length ?str \<le> 80"
    and rest: "\<forall>t\<in>set (moveTokens mode rest (i + 1) ?movenum ?side). length t \<le> 80"
    by (simp_all add: Let_def)
  have col80: "col \<le> 80" using Cons.prems(2,3) by simp
  have out_fits: "fits col ?out"
  proof (cases ?fresh)
    case True
    then show ?thesis using len col80 by (simp add: fits_short newline_def)
  next
    case False
    then have "Suc col + length ?str \<le> 80" using Cons.prems(2) by auto
    then show ?thesis using False by (simp add: fits_short newline_def)
  qed
  have out_col: "int (endCol col ?out) \<le> ?ll"
  proof (cases ?fresh)
    case True
    then show ?thesis using endCol_le [of 0 ?str] by (simp add: newline_def)
  next
    case False
    then show ?thesis using endCol_le [of "Suc col" ?str] Cons.prems(2)
      by (auto simp: newline_def)
  qed
  have ll80: "?ll \<le> 80"
    using len by auto
  from Cons.IH [OF rest out_col ll80]
  have ih: "fits (endCol col ?out) (fst ?r)"
    "int (endCol (endCol col ?out) (fst ?r)) \<le> snd ?r" "snd ?r \<le> 80"
    by simp_all
  show ?case
    unfolding unfold using out_fits ih
    by (simp only: fst_conv snd_conv fits_append endCol_append simp_thms)
qed

text \<open>
  What the wrapping of \<open>write\<close> does guarantee.  The loop starts a fresh line when the
  line is empty or \<open>lineLength + str.size() >= 80\<close>, and writes each move's text (move
  number, move string and, in Verbose mode, the comment in braces) whole.  When each
  move's text and the \<open>Result\<close> tag value are at most 80 characters long, every line of
  the movetext, the line with the termination marker included, is at most 80
  characters long.
\<close>

lemma movetext_lines:
  assumes "\<forall>t\<in>set (moveTokens mode (m_moves g) 0 0 (sideInt (m_startingSide g))). length t \<le> 80"
      and "length (tagValue g ''Result'') \<le> 80"
  shows "\<forall>l\<in>set (splitLines (writeMovetext g mode)). length l \<le> 80"
proof -
  let ?r = "writeMoves mode (m_moves g) 0 0 0 (sideInt (m_startingSide g))"
  let ?str = "qmap_value (m_tags g) ''Result''"
  let ?tail = "if snd ?r + int (length ?str) \<ge> 80
                  then newline # ?str @ [newline, newline]
                  else CHR '' '' # ?str @ [newline, newline]"
  from writeMoves_fits [OF assms(1), of 0 0]
  have r: "fits 0 (fst ?r)" "int (endCol 0 (fst ?r)) \<le> snd ?r" "snd ?r \<le> 80"
    by simp_all
  have len: "length ?str \<le> 80" using assms(2) by (simp add: tagValue_def)
  have nl: "fits n [newline, newline] \<longleftrightarrow> n \<le> 80" for n
    by simp
  have tail: "fits (endCol 0 (fst ?r)) ?tail"
  proof (cases "snd ?r + int (length ?str) \<ge> 80")
    case True
    have "endCol 0 (fst ?r) \<le> 80" using r(2,3) by simp
    moreover have "fits 0 (?str @ [newline, newline])"
      unfolding fits_append nl using len endCol_le [of 0 ?str] by (simp add: fits_short)
    ultimately show ?thesis using True by simp
  next
    case False
    then have short: "Suc (endCol 0 (fst ?r)) + length ?str \<le> 80" using r(2) by simp
    have "fits (Suc (endCol 0 (fst ?r))) (?str @ [newline, newline])"
      unfolding fits_append nl using short endCol_le [of "Suc (endCol 0 (fst ?r))" ?str]
      by (simp add: fits_short)
    then show ?thesis using False by (simp add: newline_def)
  qed
  have "fits 0 (writeMovetext g mode)"
    unfolding writeMovetext_def Let_def fits_append using r(1) tail by simp
  then show ?thesis by (simp add: fits_lines)
qed


lemma movetext_lines_example:
  "moveTokens Verbose (m_moves exGame) 0 0 (sideInt (m_startingSide exGame))
     = [''1. e4'', ''e5 {book}'', ''2. Nf3'']
   \<and> length (tagValue exGame ''Result'') \<le> 80
   \<and> splitLines (writeMovetext exGame Verbose) = ['''', ''1. e4 e5 {book} 2. Nf3 1-0'', '''', '''']"
  using movetext_lines [of Verbose exGame]
  by code_simp

text \<open>
  Claim C4 says that every movetext line that \<open>write\<close> emits is at most 80 characters
  long.  The code, whose loop carries the comment \<open>Limit the lines to 80 characters\<close>,
  does not keep that bound.  The game \<open>exLong\<close> has the result \<open>1-0\<close> and the one move
  \<open>e4\<close> with a comment of 80 characters.  Written in Verbose mode, the move and its
  comment go on one line of 88 characters: the loop wraps between the texts of moves
  only and never inside one.
\<close>

theorem movetext_long_comment_line:
  "m_moves exLong = [mv ''e4'' (replicate 80 CHR ''x'')]
   \<and> tagValue exLong ''Result'' = ''1-0''
   \<and> splitLines (writeMovetext exLong Verbose)
       = ['''', ''1. e4 {'' @ replicate 80 CHR ''x'' @ ''}'', ''1-0'', '''', '''']
   \<and> length (splitLines (writeMovetext exLong Verbose) ! 1) = 88"
  by code_simp

text \<open>
  Such a game is what \<open>read\<close> builds from a \<open>Result\<close> tag, the move \<open>e4\<close> and a comment
  of 80 characters; written again in Verbose mode it has the line of 88 characters.
\<close>

lemma read_long_comment:
  "fst (readPgn exPgnEnv 0 1000
          [PgnTag ''Result'' ''1-0'', PgnMove ''e4'', PgnComment (replicate 80 CHR ''x'')])
   \<and> map (\<lambda>m. (moveString m, comment m))
        (m_moves (rGame (snd (readPgn exPgnEnv 0 1000
          [PgnTag ''Result'' ''1-0'', PgnMove ''e4'', PgnComment (replicate 80 CHR ''x'')]))))
       = [(''e4'', replicate 80 CHR ''x'')]
   \<and> map length (splitLines (writeMovetext (rGame (snd (readPgn exPgnEnv 0 1000
          [PgnTag ''Result'' ''1-0'', PgnMove ''e4'', PgnComment (replicate 80 CHR ''x'')]))) Verbose))
       = [0, 88, 3, 0, 0]"
  by code_simp

lemma map_of_qmap_insert: "map_of (qmap_insert k v m) = (map_of m)(k \<mapsto> v)"
  by (induction m) (auto simp: fun_upd_twist)

lemma map_of_qmap_remove: "map_of (qmap_remove k m) = (map_of m)(k := None)"
  by (induction m) (auto simp: qmap_remove_def)

lemma keys_qmap_remove: "k \<notin> fst ` set (qmap_remove k m)"
  by (auto simp: qmap_remove_def)

lemma keys_qmap_insert: "fst ` set (qmap_insert k v m) = insert k (fst ` set m)"
proof (induction m)
  case Nil
  then show ?case by simp
next
  case (Cons p m)
  obtain k' v' where p: "p = (k', v')" by (cases p)
  show ?case using Cons.IH unfolding p by (simp add: insert_commute)
qed

lemma qmap_insert_sorted:
  "sorted (map fst m) \<Longrightarrow> distinct (map fst m)
   \<Longrightarrow> sorted (map fst (qmap_insert k v m)) \<and> distinct (map fst (qmap_insert k v m))"
proof (induction m)
  case Nil
  then show ?case by simp
next
  case (Cons p m)
  obtain k' v' where p: "p = (k', v')" by (cases p)
  from Cons.prems have ih: "sorted (map fst (qmap_insert k v m))"
    "distinct (map fst (qmap_insert k v m))"
    using Cons.IH by simp_all
  show ?case
    using Cons.prems ih keys_qmap_insert [of k v m] unfolding p
    by (auto simp: less_le)
qed

lemma qmap_remove_sorted:
  "sorted (map fst m) \<Longrightarrow> distinct (map fst m)
   \<Longrightarrow> sorted (map fst (qmap_remove k m)) \<and> distinct (map fst (qmap_remove k m))"
  by (induction m) (auto simp: qmap_remove_def)

text \<open>
  Claim C5.  For a game that \<open>write\<close> writes (its tag map is not empty; an empty
  one writes nothing), the output begins with the seven roster tags in the order
  Event, Site, Date, Round, White, Black, Result, each as a line
  \<open>[Tag "value"]\<close> whose value is \<open>?\<close> when the tag is missing from the map or
  mapped to the empty string; the supplementary tags and the movetext follow.
\<close>

theorem write_roster:
  assumes "m_tags g \<noteq> []"
  shows "writePgn g mode =
           concat (map (\<lambda>tag. ''['' @ tag @ [CHR '' '', dquote]
                                  @ (if tagValue g tag = [] then ''?'' else tagValue g tag)
                                  @ [dquote] @ '']'' @ [newline])
                    [''Event'', ''Site'', ''Date'', ''Round'', ''White'', ''Black'', ''Result''])
           @ concat (map (\<lambda>it. writeTag (fst it) (snd it)) (supplementaryTags g mode))
           @ writeMovetext g mode
         \<and> (\<forall>tag. tagValue g tag = [] \<longleftrightarrow>
               map_of (m_tags g) tag = None \<or> map_of (m_tags g) tag = Some [])"
proof -
  have line: "writeTag tag (qmap_value (m_tags g) tag)
      = ''['' @ tag @ [CHR '' '', dquote]
          @ (if tagValue g tag = [] then ''?'' else tagValue g tag) @ [dquote] @ '']'' @ [newline]"
    for tag
    by (simp add: writeTag_def tagValue_def)
  have missing: "tagValue g tag = [] \<longleftrightarrow>
               map_of (m_tags g) tag = None \<or> map_of (m_tags g) tag = Some []" for tag
    by (auto simp: tagValue_def qmap_value_def split: option.splits)
  show ?thesis
    using assms missing unfolding writePgn_def writeTags_def roster_def line by simp
qed

text \<open>
  Claim C10.  \<open>setTag\<close> with an empty value removes the tag from the map: its
  \<open>tagValue\<close> is then the empty string, the other tags keep their values, and the tag
  is not among the supplementary tags of a Verbose \<open>write\<close>.  With a value that is
  not empty it maps the tag to that value, inserting or overwriting, and leaves the
  other tags as they were.  The moves and the starting side are not touched.
\<close>

theorem setTag_effect:
  "tagValue (setTag g tag []) tag = []
   \<and> map_of (m_tags (setTag g tag [])) = (map_of (m_tags g))(tag := None)
   \<and> tag \<notin> fst ` set (m_tags (setTag g tag []))
   \<and> tag \<notin> fst ` set (supplementaryTags (setTag g tag []) Verbose)
   \<and> (v \<noteq> [] \<longrightarrow>
        tagValue (setTag g tag v) tag = v
        \<and> map_of (m_tags (setTag g tag v)) = (map_of (m_tags g))(tag \<mapsto> v))
   \<and> m_moves (setTag g tag v) = m_moves g
   \<and> m_startingSide (setTag g tag v) = m_startingSide g"
proof -
  have "fst ` set (supplementaryTags (setTag g tag []) Verbose)
          \<subseteq> fst ` set (m_tags (setTag g tag []))"
    by (auto simp: supplementaryTags_def)
  moreover have "tag \<notin> fst ` set (m_tags (setTag g tag []))"
    using keys_qmap_remove [of tag "m_tags g"] by (simp add: setTag_def)
  ultimately show ?thesis
    by (auto simp: setTag_def tagValue_def qmap_value_def map_of_qmap_insert map_of_qmap_remove)
qed

theorem write_roster_witness:
  "m_tags exGame \<noteq> []
   \<and> writePgn exGame Minimal
       = concat (map (\<lambda>(t, v). ''['' @ t @ [CHR '' '', dquote] @ v @ [dquote] @ '']'' @ [newline])
           [(''Event'', ''?''), (''Site'', ''?''), (''Date'', ''?''), (''Round'', ''?''),
            (''White'', ''A''), (''Black'', ''B''), (''Result'', ''1-0'')])
         @ writeMovetext exGame Minimal"
proof -
  have tags: "m_tags exGame \<noteq> []"
    by code_simp
  have vals: "tagValue exGame ''Event'' = []" "tagValue exGame ''Site'' = []"
    "tagValue exGame ''Date'' = []" "tagValue exGame ''Round'' = []"
    "tagValue exGame ''White'' = ''A''" "tagValue exGame ''Black'' = ''B''"
    "tagValue exGame ''Result'' = ''1-0''" "supplementaryTags exGame Minimal = []"
    by code_simp+
  have "writePgn exGame Minimal =
           concat (map (\<lambda>tag. ''['' @ tag @ [CHR '' '', dquote]
                                  @ (if tagValue exGame tag = [] then ''?'' else tagValue exGame tag)
                                  @ [dquote] @ '']'' @ [newline])
                    [''Event'', ''Site'', ''Date'', ''Round'', ''White'', ''Black'', ''Result''])
           @ concat (map (\<lambda>it. writeTag (fst it) (snd it)) (supplementaryTags exGame Minimal))
           @ writeMovetext exGame Minimal"
    using write_roster [OF tags, of Minimal] by (rule conjunct1)
  then have "writePgn exGame Minimal
       = concat (map (\<lambda>(t, v). ''['' @ t @ [CHR '' '', dquote] @ v @ [dquote] @ '']'' @ [newline])
           [(''Event'', ''?''), (''Site'', ''?''), (''Date'', ''?''), (''Round'', ''?''),
            (''White'', ''A''), (''Black'', ''B''), (''Result'', ''1-0'')])
         @ writeMovetext exGame Minimal"
    by (simp add: vals)
  with tags show ?thesis by (rule conjI)
qed

theorem setTag_effect_witness:
  "m_tags exGame = [(''Black'', ''B''), (''ECO'', ''C20''), (''Result'', ''1-0''), (''White'', ''A'')]
   \<and> m_tags (setTag exGame ''ECO'' []) = [(''Black'', ''B''), (''Result'', ''1-0''), (''White'', ''A'')]
   \<and> tagValue (setTag exGame ''ECO'' []) ''ECO'' = []
   \<and> supplementaryTags exGame Verbose = [(''ECO'', ''C20'')]
   \<and> supplementaryTags (setTag exGame ''ECO'' []) Verbose = []
   \<and> ''C21'' \<noteq> []
   \<and> tagValue (setTag exGame ''ECO'' ''C21'') ''ECO'' = ''C21''
   \<and> tagValue (setTag exGame ''Site'' ''Lab'') ''Site'' = ''Lab''"
proof -
  have ex: "m_tags exGame
      = [(''Black'', ''B''), (''ECO'', ''C20''), (''Result'', ''1-0''), (''White'', ''A'')]"
    "m_tags (setTag exGame ''ECO'' []) = [(''Black'', ''B''), (''Result'', ''1-0''), (''White'', ''A'')]"
    "supplementaryTags exGame Verbose = [(''ECO'', ''C20'')]"
    "supplementaryTags (setTag exGame ''ECO'' []) Verbose = []"
    by code_simp+
  have ne: "''C21'' \<noteq> []" "''Lab'' \<noteq> []"
    by simp_all
  have a: "tagValue (setTag exGame ''ECO'' []) ''ECO'' = []"
    using setTag_effect [of exGame "''ECO''" "''C21''"] by (rule conjunct1)
  have b: "tagValue (setTag exGame ''ECO'' ''C21'') ''ECO'' = ''C21''"
    using setTag_effect [of exGame "''ECO''" "''C21''"] ne(1) by blast
  have c: "tagValue (setTag exGame ''Site'' ''Lab'') ''Site'' = ''Lab''"
    using setTag_effect [of exGame "''Site''" "''Lab''"] ne(2) by blast
  from ex ne(1) a b c show ?thesis by blast
qed

section \<open>Properties of the game conductor\<close>

text \<open>
  Once the game is no longer in progress, \<open>onForfeit\<close> returns at its guard: the
  whole state is unchanged and no player is called.  \<open>onMoveMade\<close> has no such guard.
  It asserts that the game is in progress, so a build with assertions stops there; in a
  build without them a move from a player that is not on turn is logged and leaves the
  state unchanged.
\<close>

lemma events_after_end:
  assumes "\<not> m_gameInProgress g"
  shows "onForfeit g result = Inr (g, [])
         \<and> onMoveMade True env g sender eval mov = Inl AssertionFailed
         \<and> (sender \<noteq> 0 \<and> sender \<noteq> playerToMove env g \<longrightarrow>
              onMoveMade False env g sender eval mov = Inr (g, [DebugWrongTurn sender]))"
  using assms by (simp add: onForfeit_def onMoveMade_def)

lemma events_after_end_example:
  "\<not> m_gameInProgress exEnded
   \<and> onForfeit exEnded (mkResult Resignation White []) = Inr (exEnded, [])
   \<and> onMoveMade True exEnv exEnded 11 (evalOf 7 (-5)) 60 = Inl AssertionFailed
   \<and> 12 \<noteq> (0::nat) \<and> 12 \<noteq> playerToMove exEnv exEnded
   \<and> onMoveMade False exEnv exEnded 12 (evalOf 7 35) 60 = Inr (exEnded, [DebugWrongTurn 12])"
  using events_after_end [of exEnded "mkResult Resignation White []" exEnv 11 "evalOf 7 (-5)" 60]
    events_after_end [of exEnded "mkResult Resignation White []" exEnv 12 "evalOf 7 35" 60]
  by (simp add: exEnded_def exEnv_def playerToMove_def)

text \<open>
  Claim C3 says that a move event received after the game has ended leaves the result,
  the moves, the comments and the board unchanged and is discarded silently.  The code
  does not do that.  The game \<open>exEnded\<close> was ended by a time forfeit: it is not in
  progress and its result is a loss on time for Black.  Player 11, who is on turn,
  then announces move 60 with an evaluation of depth 7 and score -5.  A build with
  assertions stops at \<open>Q_ASSERT(m_gameInProgress)\<close>.  A build without them appends the
  move and its comment, plays the move on the board, replaces the loss on time by the
  board's result, which is no result, and asks player 12 for a move.  \<open>onForfeit\<close>, the
  sibling slot, has the guard that \<open>onMoveMade\<close> lacks.
\<close>

theorem ended_game_move_applied:
  "\<not> m_gameInProgress exEnded
   \<and> playerToMove exEnv exEnded = 11
   \<and> m_result_g exEnded = mkResult Timeout Black []
   \<and> onMoveMade True exEnv exEnded 11 (evalOf 7 (-5)) 60 = Inl AssertionFailed
   \<and> onMoveMade False exEnv exEnded 11 (evalOf 7 (-5)) 60
       = Inr (exEnded\<lparr>m_board := 3, m_result_g := nullResult, m_moves_g := [52, 55, 60],
                      m_comments := [''+0.25/8 1s'', ''-0.10/9 2s'', ''-0.05/7 0s'']\<rparr>,
              [PlayerMakeMove 12 60, PlayerGo 12, EmitMoveMade 60])
   \<and> nullResult \<noteq> mkResult Timeout Black []"
  by code_simp

section \<open>Properties of writing and reading back\<close>

lemma lexMoves_space: "isSpace c \<Longrightarrow> lexMoves (c # cs) = lexMoves cs"
  by simp

lemma isWordChar_not_space: "isWordChar c \<Longrightarrow> \<not> isSpace c"
  by (simp add: isWordChar_def)

lemma takeWhile_word:
  assumes "list_all isWordChar w" and "R = [] \<or> \<not> isWordChar (hd R)"
  shows "takeWhile isWordChar (w @ R) = w" and "dropWhile isWordChar (w @ R) = R"
proof -
  have all: "\<And>x. x \<in> set w \<Longrightarrow> isWordChar x"
    using assms(1) by (simp add: list_all_iff)
  have "takeWhile isWordChar R = []" and "dropWhile isWordChar R = R"
    using assms(2) by (cases R; simp)+
  then show "takeWhile isWordChar (w @ R) = w" and "dropWhile isWordChar (w @ R) = R"
    using all by (simp_all add: takeWhile_append2 dropWhile_append2)
qed

lemma lexMoves_word:
  assumes "w \<noteq> []" and "list_all isWordChar w" and "R = [] \<or> \<not> isWordChar (hd R)"
  shows "lexMoves (w @ R) =
           (if isResultMarker w then [PgnResult w]
            else if isMoveNumber w then lexMoves R
            else if hd w = CHR ''$'' then PgnNag (tl w) # lexMoves R
            else PgnMove w # lexMoves R)"
proof -
  from assms(1) obtain c cs where w: "w = c # cs" by (cases w) auto
  from assms(2) have c: "isWordChar c" and cs: "list_all isWordChar cs"
    by (simp_all add: w)
  have tw: "takeWhile isWordChar (cs @ R) = cs" and dw: "dropWhile isWordChar (cs @ R) = R"
    using takeWhile_word [OF cs assms(3)] by simp_all
  from c have ns: "\<not> isSpace c" and nb: "c \<noteq> CHR ''{''"
    by (simp_all add: isWordChar_def)
  show ?thesis
    unfolding w using ns nb by (simp add: tw dw afterWord_def)
qed

lemma lexMoves_comment:
  assumes "CHR ''}'' \<notin> set c"
  shows "lexMoves (CHR ''{'' # c @ CHR ''}'' # R) = PgnComment c # lexMoves R"
proof -
  have all: "\<And>x. x \<in> set c \<Longrightarrow> x \<noteq> CHR ''}''"
    using assms by auto
  have "takeWhile (\<lambda>x. x \<noteq> CHR ''}'') (c @ CHR ''}'' # R) = c"
    and "dropWhile (\<lambda>x. x \<noteq> CHR ''}'') (c @ CHR ''}'' # R) = CHR ''}'' # R"
    using all by (simp_all add: takeWhile_append2 dropWhile_append2)
  then show ?thesis
    by (simp add: isSpace_def newline_def afterComment_def)
qed

lemma digitChar_isDigit: "d < 10 \<Longrightarrow> isDigit (digitChar d)"
  unfolding isDigit_def digitChar_def by (rule nth_mem) simp

lemma digitsOf_digits: "list_all isDigit (digitsOf n)"
proof (induction n rule: digitsOf.induct)
  case (1 n)
  show ?case
  proof (cases "n < 10")
    case True
    then show ?thesis by (simp add: digitsOf.simps [of n] digitChar_isDigit)
  next
    case False
    then show ?thesis
      using "1.IH" by (simp add: digitsOf.simps [of n] digitChar_isDigit)
  qed
qed

lemma digitsOf_nonempty: "digitsOf n \<noteq> []"
  by (simp add: digitsOf.simps [of n])

lemma isDigit_isWordChar: "isDigit c \<Longrightarrow> isWordChar c"
  by (auto simp: isDigit_def isWordChar_def isSpace_def newline_def)

lemma isMoveNumber_not_result: "isMoveNumber w \<Longrightarrow> \<not> isResultMarker w"
  by (auto simp: isMoveNumber_def isResultMarker_def isDigit_def)

lemma lexMoves_number:
  assumes "0 \<le> n"
  shows "lexMoves (number n @ ''. '' @ R) = lexMoves R"
proof -
  let ?w = "number n @ ''.''"
  have dig: "list_all isDigit (number n)" and ne: "number n \<noteq> []"
    using assms by (simp_all add: number_def digitsOf_digits digitsOf_nonempty)
  have dot: "isWordChar (CHR ''.'')"
    by (simp add: isWordChar_def isSpace_def newline_def)
  have word: "list_all isWordChar ?w"
    using dig dot by (auto simp: list_all_iff isDigit_isWordChar)
  have num: "isMoveNumber ?w"
    using dig by (auto simp: isMoveNumber_def list_all_iff)
  have "lexMoves (?w @ CHR '' '' # R) = lexMoves (CHR '' '' # R)"
    using lexMoves_word [of ?w "CHR '' '' # R"] word num isMoveNumber_not_result [OF num]
    by (simp add: isWordChar_def isSpace_def)
  then show ?thesis by (simp add: isSpace_def)
qed

lemma lexMoves_token:
  assumes "isSpace sep" and "plainMove (moveString d)" and "CHR ''}'' \<notin> set (comment d)"
      and "0 \<le> n" and "R = [] \<or> isSpace (hd R)"
  shows "lexMoves (sep # moveToken mode numbered n d @ R) = moveToks mode d @ lexMoves R"
proof -
  let ?c = "if mode = Verbose \<and> comment d \<noteq> [] then '' {'' @ comment d @ ''}'' else []"
  have R: "R = [] \<or> \<not> isWordChar (hd R)"
    using assms(5) by (auto simp: isWordChar_def)
  have tail: "lexMoves (moveString d @ ?c @ R) = moveToks mode d @ lexMoves R"
  proof (cases "mode = Verbose \<and> comment d \<noteq> []")
    case True
    have "lexMoves (moveString d @ CHR '' '' # CHR ''{'' # comment d @ CHR ''}'' # R)
            = PgnMove (moveString d) # lexMoves (CHR '' '' # CHR ''{'' # comment d @ CHR ''}'' # R)"
      using lexMoves_word [of "moveString d" "CHR '' '' # CHR ''{'' # comment d @ CHR ''}'' # R"]
        assms(2) by (simp add: plainMove_def isWordChar_def isSpace_def)
    also have "lexMoves (CHR '' '' # CHR ''{'' # comment d @ CHR ''}'' # R)
            = lexMoves (CHR ''{'' # comment d @ CHR ''}'' # R)"
      by (rule lexMoves_space) (simp add: isSpace_def)
    also have "\<dots> = PgnComment (comment d) # lexMoves R"
      by (rule lexMoves_comment [OF assms(3)])
    finally show ?thesis using True by (simp add: moveToks_def)
  next
    case False
    then show ?thesis
      using lexMoves_word [of "moveString d" R] assms(2) R
      by (auto simp: plainMove_def moveToks_def)
  qed
  show ?thesis
  proof (cases numbered)
    case True
    have "lexMoves (sep # moveToken mode numbered n d @ R)
            = lexMoves (number n @ ''. '' @ (moveString d @ ?c @ R))"
      using True assms(1) by (simp add: moveToken_def)
    also have "\<dots> = lexMoves (moveString d @ ?c @ R)"
      by (rule lexMoves_number [OF assms(4)])
    finally show ?thesis using tail by simp
  next
    case False
    have "lexMoves (sep # moveToken mode numbered n d @ R) = lexMoves (moveString d @ ?c @ R)"
      using False assms(1) by (simp add: moveToken_def)
    then show ?thesis using tail by simp
  qed
qed


lemma writeMoves_head:
  "fst (writeMoves mode ms i L n sd) = [] \<or> isSpace (hd (fst (writeMoves mode ms i L n sd)))"
  by (cases ms) (simp_all add: Let_def isSpace_def)

lemma lexMoves_writeMoves:
  assumes "\<forall>d\<in>set ms. plainMove (moveString d) \<and> CHR ''}'' \<notin> set (comment d)"
      and "0 \<le> n" and "R = [] \<or> isSpace (hd R)"
  shows "lexMoves (fst (writeMoves mode ms i L n sd) @ R)
           = concat (map (moveToks mode) ms) @ lexMoves R"
  using assms
proof (induction ms arbitrary: i L n sd)
  case Nil
  then show ?case by simp
next
  case (Cons d rest)
  let ?numbered = "sd = 0 \<or> i = 0"
  let ?n = "if ?numbered then n + 1 else n"
  let ?str = "moveToken mode ?numbered ?n d"
  let ?fresh = "L = 0 \<or> L + int (length ?str) \<ge> 80"
  let ?sep = "if ?fresh then newline else CHR '' ''"
  let ?L = "if ?fresh then int (length ?str) else L + (int (length ?str) + 1)"
  let ?r = "writeMoves mode rest (i + 1) ?L ?n (if sd = 0 then 1 else 0)"
  have unfold: "fst (writeMoves mode (d # rest) i L n sd) = ?sep # ?str @ fst ?r"
    by (simp add: Let_def)
  have sep: "isSpace ?sep" by (simp add: isSpace_def)
  from Cons.prems(1) have d: "plainMove (moveString d)" "CHR ''}'' \<notin> set (comment d)"
    and rest: "\<forall>d\<in>set rest. plainMove (moveString d) \<and> CHR ''}'' \<notin> set (comment d)"
    by simp_all
  have n: "0 \<le> ?n" using Cons.prems(2) by simp
  have R': "fst ?r @ R = [] \<or> isSpace (hd (fst ?r @ R))"
    using writeMoves_head [of mode rest "i + 1" ?L ?n "if sd = 0 then 1 else 0"] Cons.prems(3)
    by (cases "fst ?r") auto
  have "lexMoves (fst (writeMoves mode (d # rest) i L n sd) @ R)
          = lexMoves (?sep # ?str @ (fst ?r @ R))"
    unfolding unfold by simp
  also have "\<dots> = moveToks mode d @ lexMoves (fst ?r @ R)"
    by (rule lexMoves_token [OF sep d n R'])
  also have "lexMoves (fst ?r @ R) = concat (map (moveToks mode) rest) @ lexMoves R"
    by (rule Cons.IH [OF rest n Cons.prems(3)])
  finally show ?case by simp
qed

lemma resultMarker_word: "isResultMarker w \<Longrightarrow> w \<noteq> [] \<and> list_all isWordChar w"
  by (auto simp: isResultMarker_def isWordChar_def isSpace_def newline_def)

lemma lexMoves_result:
  assumes "isSpace sep" and "res = [] \<or> isResultMarker res"
  shows "lexMoves (sep # res @ [newline, newline]) = resultToks res"
proof (cases "res = []")
  case True
  then show ?thesis using assms(1) by (simp add: resultToks_def isSpace_def)
next
  case False
  with assms(2) have m: "isResultMarker res" by simp
  have "lexMoves (res @ [newline, newline]) = [PgnResult res]"
    using lexMoves_word [of res "[newline, newline]"] resultMarker_word [OF m] m
    by (simp add: isWordChar_def isSpace_def)
  then show ?thesis using assms(1) False by (simp add: resultToks_def)
qed

lemma lexMoves_writeMovetext:
  assumes "\<forall>d\<in>set (m_moves g). plainMove (moveString d) \<and> CHR ''}'' \<notin> set (comment d)"
      and "tagValue g ''Result'' = [] \<or> isResultMarker (tagValue g ''Result'')"
  shows "lexMoves (writeMovetext g mode)
           = concat (map (moveToks mode) (m_moves g)) @ resultToks (tagValue g ''Result'')"
proof -
  let ?r = "writeMoves mode (m_moves g) 0 0 0 (sideInt (m_startingSide g))"
  let ?res = "qmap_value (m_tags g) ''Result''"
  let ?sep = "if snd ?r + int (length ?res) \<ge> 80 then newline else CHR '' ''"
  have mt: "writeMovetext g mode = fst ?r @ (?sep # ?res @ [newline, newline])"
    by (simp add: writeMovetext_def Let_def)
  have sep: "isSpace ?sep" by (simp add: isSpace_def)
  have res: "?res = [] \<or> isResultMarker ?res"
    using assms(2) by (simp add: tagValue_def)
  have "lexMoves (fst ?r @ (?sep # ?res @ [newline, newline]))
          = concat (map (moveToks mode) (m_moves g)) @ lexMoves (?sep # ?res @ [newline, newline])"
    by (rule lexMoves_writeMoves [OF assms(1)]) (simp_all add: isSpace_def)
  also have "lexMoves (?sep # ?res @ [newline, newline]) = resultToks ?res"
    by (rule lexMoves_result [OF sep res])
  finally show ?thesis unfolding mt by (simp add: tagValue_def)
qed

lemma lexTags_lexMoves: "\<not> startsTag s \<Longrightarrow> lexTags s = lexMoves s"
proof (induction s)
  case Nil
  then show ?case by simp
next
  case (Cons c cs)
  show ?case
  proof (cases "isSpace c")
    case True
    with Cons show ?thesis by simp
  next
    case False
    with Cons.prems have "c \<noteq> CHR ''[''" by simp
    with False show ?thesis by simp
  qed
qed

lemma number_1: "number 1 = ''1''"
  by (simp add: number_def digitsOf.simps digitChar_def)

lemma startsTag_result:
  assumes "res = [] \<or> isResultMarker res"
  shows "\<not> startsTag (res @ [newline, newline])"
  using assms by (auto simp: isResultMarker_def isSpace_def newline_def)

lemma startsTag_writeMovetext:
  assumes "tagValue g ''Result'' = [] \<or> isResultMarker (tagValue g ''Result'')"
  shows "\<not> startsTag (writeMovetext g mode)"
proof (cases "m_moves g")
  case Nil
  have res: "qmap_value (m_tags g) ''Result'' = [] \<or> isResultMarker (qmap_value (m_tags g) ''Result'')"
    using assms by (simp add: tagValue_def)
  have sp: "isSpace newline" "isSpace (CHR '' '')"
    by (simp_all add: isSpace_def)
  show ?thesis
    using Nil startsTag_result [OF res] sp
    by (simp add: writeMovetext_def Let_def)
next
  case (Cons d rest)
  then show ?thesis
    by (simp add: writeMovetext_def Let_def moveToken_def number_1 isSpace_def newline_def)
qed


lemma writeTag_rendered:
  "writeTag k v = CHR ''['' # k @ CHR '' '' # dquote # rendered v @ [dquote, CHR '']'', newline]"
  by (simp add: writeTag_def rendered_def)

lemma lexTags_writeTag:
  assumes "CHR '' '' \<notin> set k" and "dquote \<notin> set k" and "dquote \<notin> set (rendered v)"
  shows "lexTags (writeTag k v @ R) = PgnTag k (rendered v) # lexTags R"
proof -
  let ?v = "rendered v"
  let ?c1 = "?v @ dquote # CHR '']'' # newline # R"
  let ?cs = "k @ CHR '' '' # dquote # ?c1"
  have k1: "\<And>x. x \<in> set k \<Longrightarrow> x \<noteq> CHR '' ''" and k2: "\<And>x. x \<in> set k \<Longrightarrow> x \<noteq> dquote"
    and v: "\<And>x. x \<in> set ?v \<Longrightarrow> x \<noteq> dquote"
    using assms by auto
  have nm: "tagNameOf ?cs = k"
    using k1 by (simp add: tagNameOf_def takeWhile_append2)
  have fq: "fromQuote ?cs = ?c1"
    using k2 by (simp add: fromQuote_def dropWhile_append2 dquote_def)
  have vl: "tagValueOf ?cs = ?v"
    unfolding tagValueOf_def fq using v by (simp add: takeWhile_append2)
  have fq2: "fromQuote ?c1 = CHR '']'' # newline # R"
    using v by (simp add: fromQuote_def dropWhile_append2)
  have at: "afterTag ?cs = newline # R"
    unfolding afterTag_def fq fq2 by simp
  have "lexTags (CHR ''['' # ?cs) = PgnTag k ?v # lexTags (newline # R)"
    unfolding lexTags.simps nm vl at by (simp add: isSpace_def newline_def)
  then show ?thesis
    by (simp add: writeTag_rendered isSpace_def)
qed

lemma lexTags_tagLines:
  assumes "\<forall>p\<in>set tags. CHR '' '' \<notin> set (fst p) \<and> dquote \<notin> set (fst p)
              \<and> dquote \<notin> set (rendered (snd p))"
  shows "lexTags (concat (map (\<lambda>p. writeTag (fst p) (snd p)) tags) @ R)
           = map (\<lambda>p. PgnTag (fst p) (rendered (snd p))) tags @ lexTags R"
  using assms
proof (induction tags)
  case Nil
  then show ?case by simp
next
  case (Cons p tags)
  from Cons.prems have p: "CHR '' '' \<notin> set (fst p)" "dquote \<notin> set (fst p)"
    "dquote \<notin> set (rendered (snd p))"
    and rest: "\<forall>p\<in>set tags. CHR '' '' \<notin> set (fst p) \<and> dquote \<notin> set (fst p)
              \<and> dquote \<notin> set (rendered (snd p))"
    by simp_all
  have "lexTags (writeTag (fst p) (snd p)
                  @ (concat (map (\<lambda>p. writeTag (fst p) (snd p)) tags) @ R))
          = PgnTag (fst p) (rendered (snd p))
              # lexTags (concat (map (\<lambda>p. writeTag (fst p) (snd p)) tags) @ R)"
    by (rule lexTags_writeTag [OF p])
  with Cons.IH [OF rest] show ?case by simp
qed

lemma qmap_value_plain:
  assumes "\<forall>p\<in>set m. plainTag p"
  shows "dquote \<notin> set (qmap_value m k)"
proof (cases "map_of m k")
  case None
  then show ?thesis by (simp add: qmap_value_def)
next
  case (Some v)
  then have "(k, v) \<in> set m" by (rule map_of_SomeD)
  with assms have "plainTag (k, v)" by blast
  with Some show ?thesis by (simp add: qmap_value_def plainTag_def)
qed

lemma rendered_plain: "dquote \<notin> set v \<Longrightarrow> dquote \<notin> set (rendered v)"
  by (simp add: rendered_def dquote_def)

lemma written_plain:
  assumes "\<forall>p\<in>set (m_tags g). plainTag p"
  shows "\<forall>p\<in>set (map (\<lambda>tag. (tag, qmap_value (m_tags g) tag)) roster @ supplementaryTags g mode).
           CHR '' '' \<notin> set (fst p) \<and> dquote \<notin> set (fst p) \<and> dquote \<notin> set (rendered (snd p))"
proof -
  have val: "dquote \<notin> set (rendered (qmap_value (m_tags g) k))" for k
    by (rule rendered_plain [OF qmap_value_plain [OF assms]])
  have ros: "\<forall>t\<in>set roster. CHR '' '' \<notin> set t \<and> dquote \<notin> set t"
    by (simp add: roster_def dquote_def)
  have sup: "\<forall>p\<in>set (supplementaryTags g mode).
           CHR '' '' \<notin> set (fst p) \<and> dquote \<notin> set (fst p) \<and> dquote \<notin> set (rendered (snd p))"
  proof (cases mode)
    case Verbose
    have "\<forall>p\<in>set (m_tags g). CHR '' '' \<notin> set (fst p) \<and> dquote \<notin> set (fst p)
            \<and> dquote \<notin> set (rendered (snd p))"
      using assms by (simp add: plainTag_def rendered_plain)
    then show ?thesis
      using Verbose by (simp add: supplementaryTags_def)
  next
    case Minimal
    have names: "CHR '' '' \<notin> set ''FEN''" "dquote \<notin> set ''FEN''"
      "CHR '' '' \<notin> set ''SetUp''" "dquote \<notin> set ''SetUp''"
      by (simp_all add: dquote_def)
    show ?thesis
      using Minimal val [of "''FEN''"] val [of "''SetUp''"] names
      by (auto simp: supplementaryTags_def)
  qed
  show ?thesis using val ros sup by auto
qed

text \<open>
  The tokens of a written game: the tag pairs with the rendered values, the moves with
  their comments, and the result marker.
\<close>

lemma pgnTokens_writePgn:
  assumes "m_tags g \<noteq> []" and "\<forall>p\<in>set (m_tags g). plainTag p"
      and "\<forall>d\<in>set (m_moves g). plainMove (moveString d) \<and> CHR ''}'' \<notin> set (comment d)"
      and "tagValue g ''Result'' = [] \<or> isResultMarker (tagValue g ''Result'')"
  shows "pgnTokens (writePgn g mode)
           = map (\<lambda>p. PgnTag (fst p) (snd p)) (writtenTags g mode)
             @ concat (map (moveToks mode) (m_moves g))
             @ resultToks (tagValue g ''Result'')"
proof -
  let ?tags = "map (\<lambda>tag. (tag, qmap_value (m_tags g) tag)) roster @ supplementaryTags g mode"
  have wt: "writeTags g mode = concat (map (\<lambda>p. writeTag (fst p) (snd p)) ?tags)"
    by (simp add: writeTags_def comp_def)
  have "lexTags (concat (map (\<lambda>p. writeTag (fst p) (snd p)) ?tags) @ writeMovetext g mode)
          = map (\<lambda>p. PgnTag (fst p) (rendered (snd p))) ?tags @ lexTags (writeMovetext g mode)"
    by (rule lexTags_tagLines [OF written_plain [OF assms(2)]])
  also have "lexTags (writeMovetext g mode) = lexMoves (writeMovetext g mode)"
    by (rule lexTags_lexMoves [OF startsTag_writeMovetext [OF assms(4)]])
  also have "\<dots> = concat (map (moveToks mode) (m_moves g)) @ resultToks (tagValue g ''Result'')"
    by (rule lexMoves_writeMovetext [OF assms(3,4)])
  finally show ?thesis
    using assms(1) unfolding pgnTokens_def writePgn_def wt writtenTags_def
    by (simp add: comp_def)
qed


lemma qmap_value_insert: "qmap_value (qmap_insert k v m) t = (if t = k then v else qmap_value m t)"
  by (simp add: qmap_value_def map_of_qmap_insert)

lemma qmap_value_remove: "qmap_value (qmap_remove k m) t = (if t = k then [] else qmap_value m t)"
  by (simp add: qmap_value_def map_of_qmap_remove)

lemma tagValue_setTag: "tagValue (setTag g k v) t = (if t = k then v else tagValue g t)"
  by (simp add: tagValue_def setTag_def qmap_value_insert qmap_value_remove)

lemma tagValue_nonempty: "tagValue g t \<noteq> [] \<Longrightarrow> m_tags g \<noteq> []"
  by (auto simp: tagValue_def qmap_value_def)

lemma sameRoster_refl: "sameRoster g g"
  by (simp add: sameRoster_def)

lemma sameRoster_trans: "sameRoster g g1 \<Longrightarrow> sameRoster g1 g2 \<Longrightarrow> sameRoster g g2"
  by (simp add: sameRoster_def)

lemma sameRoster_tags: "m_tags g' = m_tags g \<Longrightarrow> sameRoster g g'"
  by (simp add: sameRoster_def tagValue_def)

lemma sameRoster_insert:
  "k \<notin> set roster \<Longrightarrow> sameRoster g (g\<lparr>m_tags := qmap_insert k v (m_tags g)\<rparr>)"
  by (auto simp: sameRoster_def tagValue_def qmap_value_insert)

lemma sameRoster_setTag: "k \<notin> set roster \<Longrightarrow> sameRoster g (setTag g k v)"
  by (auto simp: sameRoster_def tagValue_setTag)

lemma sameRoster_Event: "sameRoster g g' \<Longrightarrow> tagValue g' ''Event'' = tagValue g ''Event''"
  by (simp add: sameRoster_def roster_def)

lemma not_roster:
  "''Variant'' \<notin> set roster" "''ECO'' \<notin> set roster" "''Opening'' \<notin> set roster"
  "''Variation'' \<notin> set roster" "''PlyCount'' \<notin> set roster" "''FEN'' \<notin> set roster"
  "''SetUp'' \<notin> set roster"
  by (simp_all add: roster_def)

lemma firstMove_game:
  "sameRoster (rGame r) (rGame (snd (firstMove env r)))
   \<and> m_moves (rGame (snd (firstMove env r))) = m_moves (rGame r)
   \<and> m_eco (snd (firstMove env r)) = m_eco r"
proof -
  have ins: "sameRoster (rGame r)
     ((rGame r)\<lparr>m_tags := qmap_insert ''Variant'' v (m_tags (rGame r))\<rparr>)" for v
    by (rule sameRoster_insert [OF not_roster(1)])
  have ins': "sameRoster (rGame r)
     ((rGame r)\<lparr>m_tags := qmap_insert ''Variant'' v (m_tags (rGame r)), m_startingSide := sd\<rparr>)"
    for v sd
    using ins [of v] by (simp add: sameRoster_def tagValue_def)
  have side: "sameRoster (rGame r) ((rGame r)\<lparr>m_startingSide := sd\<rparr>)" for sd
    by (simp add: sameRoster_def tagValue_def)
  show ?thesis
    using ins ins' side sameRoster_refl [of "rGame r"]
    by (auto simp: firstMove_def Let_def split: option.splits)
qed

lemma addMove_game:
  "sameRoster (rGame r) (rGame (addMove env r d))
   \<and> m_moves (rGame (addMove env r d)) = m_moves (rGame r) @ [d]
   \<and> rBoard (addMove env r d) = rBoard r"
proof -
  let ?g1 = "(rGame r)\<lparr>m_moves := m_moves (rGame r) @ [d]\<rparr>"
  have g1: "sameRoster (rGame r) ?g1"
    by (simp add: sameRoster_def tagValue_def)
  have eco: "sameRoster (rGame r) (setTag (setTag (setTag ?g1 ''ECO'' a) ''Opening'' b) ''Variation'' c)"
    for a b c
    using g1 sameRoster_setTag [OF not_roster(2), of ?g1 a]
      sameRoster_setTag [OF not_roster(3), of "setTag ?g1 ''ECO'' a" b]
      sameRoster_setTag [OF not_roster(4), of "setTag (setTag ?g1 ''ECO'' a) ''Opening'' b" c]
    by (blast intro: sameRoster_trans)
  have mv: "m_moves (setTag (setTag (setTag ?g1 ''ECO'' a) ''Opening'' b) ''Variation'' c)
      = m_moves (rGame r) @ [d]" for a b c
    by (simp add: setTag_def)
  show ?thesis
    using g1 eco mv by (auto simp: addMove_def Let_def split: option.splits)
qed

lemma parseMove_ok:
  assumes "tagValue (rGame r) ''Event'' \<noteq> []" and "ready env r"
      and "moveFromString env (boardBefore env r) str = Some m"
  shows "fst (parseMove env r str)
         \<and> map moveString (m_moves (rGame (snd (parseMove env r str))))
             = map moveString (m_moves (rGame r)) @ [str]
         \<and> sameRoster (rGame r) (rGame (snd (parseMove env r str)))
         \<and> rBoard (snd (parseMove env r str)) = makeMove env (boardBefore env r) m"
proof -
  let ?p = "if m_moves (rGame r) = [] then firstMove env r else (True, r)"
  let ?md = "\<lparr>key = keyOf env (rBoard (snd ?p)),
               move = genericMove env (rBoard (snd ?p)) m,
               moveString = str, comment = []\<rparr>"
  let ?r1 = "addMove env (snd ?p) ?md"
  have tags: "m_tags (rGame r) \<noteq> []"
    by (rule tagValue_nonempty [OF assms(1)])
  have ok: "fst ?p" using assms(2) by (simp add: ready_def)
  have board: "rBoard (snd ?p) = boardBefore env r"
    by (simp add: boardBefore_def)
  have pm: "parseMove env r str = (True, ?r1\<lparr>rBoard := makeMove env (rBoard ?r1) m\<rparr>)"
    using tags ok assms(3) unfolding parseMove_def Let_def board [symmetric] by simp
  have p: "sameRoster (rGame r) (rGame (snd ?p))" "m_moves (rGame (snd ?p)) = m_moves (rGame r)"
    using firstMove_game [of r env] sameRoster_refl [of "rGame r"] by auto
  have a: "sameRoster (rGame (snd ?p)) (rGame ?r1)"
    "m_moves (rGame ?r1) = m_moves (rGame (snd ?p)) @ [?md]" "rBoard ?r1 = rBoard (snd ?p)"
    using addMove_game [of "snd ?p" env ?md] by blast+
  show ?thesis
    unfolding pm using sameRoster_trans [OF p(1) a(1)] a(2,3) p(2) board by simp
qed


lemma readLoop_tags:
  "readLoop env mx r (map (\<lambda>p. PgnTag (fst p) (snd p)) tags @ toks)
     = readLoop env mx
         (r\<lparr>rGame := (rGame r)\<lparr>m_tags :=
               foldl (\<lambda>m p. qmap_insert (fst p) (snd p) m) (m_tags (rGame r)) tags\<rparr>\<rparr>) toks"
  by (induction tags arbitrary: r) simp_all

lemma map_of_foldl_insert:
  "map_of (foldl (\<lambda>m p. qmap_insert (fst p) (snd p) m) m ps) k
     = (case map_of (rev ps) k of None \<Rightarrow> map_of m k | Some v \<Rightarrow> Some v)"
proof (induction ps arbitrary: m)
  case Nil
  then show ?case by simp
next
  case (Cons p ps)
  show ?case
    by (cases p) (simp add: Cons.IH map_of_qmap_insert map_add_def split: option.splits)
qed

lemma map_of_rev_roster:
  "map_of (rev (map (\<lambda>k. (k, h k)) ks)) t = (if t \<in> set ks then Some (h t) else None)"
  by (induction ks) (auto simp: map_add_def split: option.splits)

lemma supplementary_not_roster: "t \<in> set roster \<Longrightarrow> t \<notin> fst ` set (supplementaryTags g mode)"
  using not_roster(6,7) by (cases mode) (auto simp: supplementaryTags_def)

lemma tagsRead_roster:
  assumes "t \<in> set roster"
  shows "qmap_value (tagsRead g mode) t = rendered (tagValue g t)"
proof -
  let ?rend = "\<lambda>p::string \<times> string. (fst p, rendered (snd p))"
  let ?sup = "map ?rend (supplementaryTags g mode)"
  let ?ros = "map (\<lambda>k. (k, rendered (qmap_value (m_tags g) k))) roster"
  have wt: "writtenTags g mode = ?ros @ ?sup"
    by (simp add: writtenTags_def comp_def)
  have "t \<notin> fst ` set ?sup"
    using supplementary_not_roster [OF assms, of g mode] by (auto simp: image_iff)
  then have sup: "map_of (rev ?sup) t = None"
    by (simp add: map_of_eq_None_iff)
  have ros: "map_of (rev ?ros) t = Some (rendered (qmap_value (m_tags g) t))"
    using assms by (simp add: map_of_rev_roster)
  have "map_of (rev (writtenTags g mode)) t = Some (rendered (qmap_value (m_tags g) t))"
    unfolding wt using sup ros by (simp add: map_add_def)
  then show ?thesis
    by (simp add: tagsRead_def qmap_value_def map_of_foldl_insert tagValue_def)
qed

lemma rendered_nonempty: "rendered v \<noteq> []"
  by (simp add: rendered_def)

lemma appendComment_game:
  "m_tags (appendComment g c) = m_tags g
   \<and> map moveString (m_moves (appendComment g c)) = map moveString (m_moves g)
   \<and> (m_moves (appendComment g c) = [] \<longleftrightarrow> m_moves g = [])"
proof (cases "m_moves g = []")
  case True
  then show ?thesis by (simp add: appendComment_def)
next
  case False
  then have bl: "butlast (m_moves g) @ [last (m_moves g)] = m_moves g"
    by simp
  have "map moveString (butlast (m_moves g) @ [(last (m_moves g))\<lparr>comment := x\<rparr>])
      = map moveString (butlast (m_moves g) @ [last (m_moves g)])" for x
    by simp
  then have "map moveString (butlast (m_moves g) @ [(last (m_moves g))\<lparr>comment := x\<rparr>])
      = map moveString (m_moves g)" for x
    unfolding bl .
  with False show ?thesis by (simp add: appendComment_def)
qed

text \<open>
  The loop over the tokens of the written moves: every move is parsed and appended,
  and the roster values stay as they are.
\<close>

lemma readLoop_moves:
  assumes "tagValue (rGame r) ''Event'' \<noteq> []"
      and "ms \<noteq> [] \<longrightarrow> ready env r \<and> accepts env (boardBefore env r) (map moveString ms)"
      and "int (length (m_moves (rGame r)) + length ms) < mx"
  shows "\<exists>r'. readLoop env mx r (concat (map (moveToks mode) ms) @ toks) = readLoop env mx r' toks
           \<and> map moveString (m_moves (rGame r'))
               = map moveString (m_moves (rGame r)) @ map moveString ms
           \<and> sameRoster (rGame r) (rGame r')"
  using assms
proof (induction ms arbitrary: r)
  case Nil
  then show ?case using sameRoster_refl by auto
next
  case (Cons d rest)
  let ?str = "moveString d"
  let ?p = "parseMove env r ?str"
  let ?c = "mode = Verbose \<and> comment d \<noteq> []"
  let ?r1 = "if ?c then (snd ?p)\<lparr>rGame := appendComment (rGame (snd ?p)) (comment d)\<rparr> else snd ?p"
  from Cons.prems(2) have rdy: "ready env r"
    and acc: "accepts env (boardBefore env r) (?str # map moveString rest)"
    by simp_all
  from acc obtain m where m: "moveFromString env (boardBefore env r) ?str = Some m"
    and acc': "accepts env (makeMove env (boardBefore env r) m) (map moveString rest)"
    by (auto split: option.splits)
  from parseMove_ok [OF Cons.prems(1) rdy m]
  have ok: "fst ?p"
    and strs: "map moveString (m_moves (rGame (snd ?p))) = map moveString (m_moves (rGame r)) @ [?str]"
    and ros: "sameRoster (rGame r) (rGame (snd ?p))"
    and brd: "rBoard (snd ?p) = makeMove env (boardBefore env r) m"
    by simp_all
  from strs have len: "length (m_moves (rGame (snd ?p))) = Suc (length (m_moves (rGame r)))"
    using length_map [of moveString "m_moves (rGame (snd ?p))"] by simp
  then have ne: "m_moves (rGame (snd ?p)) \<noteq> []" by auto
  have bound: "\<not> int (length (m_moves (rGame (snd ?p)))) \<ge> mx"
    using len Cons.prems(3) by simp
  have step: "readLoop env mx r (concat (map (moveToks mode) (d # rest)) @ toks)
      = readLoop env mx ?r1 (concat (map (moveToks mode) rest) @ toks)"
    using ok bound by (simp add: moveToks_def Let_def)
  have r1: "map moveString (m_moves (rGame ?r1)) = map moveString (m_moves (rGame r)) @ [?str]"
    "sameRoster (rGame r) (rGame ?r1)" "m_moves (rGame ?r1) \<noteq> []" "rBoard ?r1 = rBoard (snd ?p)"
    using strs ros ne appendComment_game [of "rGame (snd ?p)" "comment d"]
      sameRoster_trans [OF ros sameRoster_tags [of "appendComment (rGame (snd ?p)) (comment d)" "rGame (snd ?p)"]]
    by auto
  have ev: "tagValue (rGame ?r1) ''Event'' \<noteq> []"
    using sameRoster_Event [OF r1(2)] Cons.prems(1) by simp
  have rdy1: "rest \<noteq> [] \<longrightarrow> ready env ?r1 \<and> accepts env (boardBefore env ?r1) (map moveString rest)"
    using r1(3,4) acc' brd by (simp add: ready_def boardBefore_def)
  have len1: "int (length (m_moves (rGame ?r1)) + length rest) < mx"
    using r1(1) Cons.prems(3) length_map [of moveString "m_moves (rGame ?r1)"] by simp
  from Cons.IH [OF ev rdy1 len1] obtain r' where
    r': "readLoop env mx ?r1 (concat (map (moveToks mode) rest) @ toks) = readLoop env mx r' toks"
    "map moveString (m_moves (rGame r')) = map moveString (m_moves (rGame ?r1)) @ map moveString rest"
    "sameRoster (rGame ?r1) (rGame r')"
    by blast
  have "readLoop env mx r (concat (map (moveToks mode) (d # rest)) @ toks) = readLoop env mx r' toks"
    using step r'(1) by simp
  moreover have "map moveString (m_moves (rGame r'))
      = map moveString (m_moves (rGame r)) @ map moveString (d # rest)"
    using r'(2) r1(1) by simp
  moreover have "sameRoster (rGame r) (rGame r')"
    by (rule sameRoster_trans [OF r1(2) r'(3)])
  ultimately show ?case by blast
qed


text \<open>
  Claim C6, as the code has it.  Take a game with a tag map that is not empty, tag
  names without space or double quote, tag values without double quote, move strings
  that are plain words (not empty, without white space or an opening brace, and not a
  move number, a result marker or a NAG), comments without a closing brace, and a
  \<open>Result\<close> value that is missing or a result marker.  When the reader's board
  accepts the move strings and there are fewer than \<open>maxMoves\<close> of them, reading the
  text that \<open>write\<close> produced succeeds and yields the same sequence of move strings
  and, for each of the seven roster tags, the value as written: the game's value, or
  \<open>?\<close> where the game's value is missing or empty.
\<close>

theorem read_write_roundtrip:
  assumes "m_tags g \<noteq> []"
      and "\<forall>p\<in>set (m_tags g). plainTag p"
      and "\<forall>d\<in>set (m_moves g). plainMove (moveString d) \<and> CHR ''}'' \<notin> set (comment d)"
      and "tagValue g ''Result'' = [] \<or> isResultMarker (tagValue g ''Result'')"
      and "boardAccepts env s (tagsRead g mode) (map moveString (m_moves g))"
      and "int (length (m_moves g)) < maxMoves"
  shows "\<exists>r. readPgn env s maxMoves (pgnTokens (writePgn g mode)) = (True, r)
           \<and> map moveString (m_moves (rGame r)) = map moveString (m_moves g)
           \<and> (\<forall>t\<in>set roster. tagValue (rGame r) t
                 = (if tagValue g t = [] then ''?'' else tagValue g t))"
proof -
  let ?T1 = "map (\<lambda>p. PgnTag (fst p) (snd p)) (writtenTags g mode)"
  let ?T2 = "concat (map (moveToks mode) (m_moves g))"
  let ?res = "tagValue g ''Result''"
  let ?T3 = "resultToks ?res"
  let ?r0 = "\<lparr>rGame = clear, m_eco = ecoRoot env, rBoard = s\<rparr>"
  let ?rT = "\<lparr>rGame = clear\<lparr>m_tags := tagsRead g mode\<rparr>, m_eco = ecoRoot env, rBoard = s\<rparr>"
  have toks: "pgnTokens (writePgn g mode) = ?T1 @ ?T2 @ ?T3"
    by (rule pgnTokens_writePgn [OF assms(1-4)])
  have ne: "?T1 @ ?T2 @ ?T3 \<noteq> []"
    by (simp add: writtenTags_def roster_def)
  have tags: "readLoop env maxMoves ?r0 (?T1 @ ?T2 @ ?T3) = readLoop env maxMoves ?rT (?T2 @ ?T3)"
    unfolding readLoop_tags by (simp add: tagsRead_def clear_def)
  have rT: "tagValue (rGame ?rT) t = rendered (tagValue g t)" if "t \<in> set roster" for t
    using tagsRead_roster [OF that, of g mode] by (simp add: tagValue_def)
  have ev: "tagValue (rGame ?rT) ''Event'' \<noteq> []"
    using rT [of "''Event''"] rendered_nonempty by (simp add: roster_def)
  have acc: "m_moves g \<noteq> [] \<longrightarrow>
      ready env ?rT \<and> accepts env (boardBefore env ?rT) (map moveString (m_moves g))"
    using assms(5) by (auto simp: boardAccepts_def ready_def boardBefore_def clear_def Let_def)
  have len: "int (length (m_moves (rGame ?rT)) + length (m_moves g)) < maxMoves"
    using assms(6) by (simp add: clear_def)
  from readLoop_moves [OF ev acc len, of mode ?T3] obtain r2 where
    r2: "readLoop env maxMoves ?rT (?T2 @ ?T3) = readLoop env maxMoves r2 ?T3"
    and strs: "map moveString (m_moves (rGame r2)) = map moveString (m_moves g)"
    and ros: "sameRoster (rGame ?rT) (rGame r2)"
    by (auto simp: clear_def)
  let ?r3 = "readLoop env maxMoves r2 ?T3"
  have r2v: "tagValue (rGame r2) t = rendered (tagValue g t)" if "t \<in> set roster" for t
    using ros rT [OF that] that by (simp add: sameRoster_def)
  have r3m: "m_moves (rGame ?r3) = m_moves (rGame r2)"
    by (simp add: resultToks_def)
  have r3v: "tagValue (rGame ?r3) t = rendered (tagValue g t)" if "t \<in> set roster" for t
  proof (cases "?res = []")
    case True
    then show ?thesis using r2v [OF that] by (simp add: resultToks_def)
  next
    case False
    then have "tagValue (rGame ?r3) t = (if t = ''Result'' then ?res else tagValue (rGame r2) t)"
      by (simp add: resultToks_def tagValue_def qmap_value_insert)
    then show ?thesis using r2v [OF that] False by (auto simp: rendered_def)
  qed
  have r3t: "m_tags (rGame ?r3) \<noteq> []"
    using r3v [of "''Event''"] rendered_nonempty tagValue_nonempty [of "rGame ?r3" "''Event''"]
    by (simp add: roster_def)
  let ?r = "?r3\<lparr>rGame := (rGame ?r3)\<lparr>m_tags :=
                 qmap_insert ''PlyCount'' (number (int (length (m_moves (rGame ?r3)))))
                   (m_tags (rGame ?r3))\<rparr>\<rparr>"
  have rd: "readPgn env s maxMoves (pgnTokens (writePgn g mode)) = (True, ?r)"
    unfolding toks readPgn_def Let_def using ne r3t by (simp only: tags r2 if_False fst_conv)
  have rm: "map moveString (m_moves (rGame ?r)) = map moveString (m_moves g)"
    using r3m strs by simp
  have rv: "\<forall>t\<in>set roster. tagValue (rGame ?r) t
                 = (if tagValue g t = [] then ''?'' else tagValue g t)"
  proof
    fix t assume t: "t \<in> set roster"
    then have "t \<noteq> ''PlyCount''" using not_roster(5) by auto
    then have "tagValue (rGame ?r) t = tagValue (rGame ?r3) t"
      by (simp add: tagValue_def qmap_value_insert)
    with r3v [OF t] show "tagValue (rGame ?r) t = (if tagValue g t = [] then ''?'' else tagValue g t)"
      by (simp add: rendered_def)
  qed
  from rd rm rv show ?thesis by blast
qed


theorem read_write_roundtrip_witness:
  "m_tags exGame \<noteq> []
   \<and> list_all plainTag (m_tags exGame)
   \<and> list_all (\<lambda>d. plainMove (moveString d) \<and> CHR ''}'' \<notin> set (comment d)) (m_moves exGame)
   \<and> isResultMarker (tagValue exGame ''Result'')
   \<and> boardAccepts exPgnEnv 0 (tagsRead exGame Verbose) (map moveString (m_moves exGame))
   \<and> int (length (m_moves exGame)) < 1000
   \<and> fst (readPgn exPgnEnv 0 1000 (pgnTokens (writePgn exGame Verbose)))
   \<and> map moveString (m_moves (rGame (snd (readPgn exPgnEnv 0 1000 (pgnTokens (writePgn exGame Verbose))))))
       = [''e4'', ''e5'', ''Nf3'']
   \<and> map (tagValue (rGame (snd (readPgn exPgnEnv 0 1000 (pgnTokens (writePgn exGame Verbose))))))
        [''White'', ''Black'', ''Result''] = [''A'', ''B'', ''1-0'']"
proof -
  have h1: "m_tags exGame \<noteq> []"
    by code_simp
  have h2: "list_all plainTag (m_tags exGame)"
    by code_simp
  have h3: "list_all (\<lambda>d. plainMove (moveString d) \<and> CHR ''}'' \<notin> set (comment d)) (m_moves exGame)"
    by code_simp
  have h4: "isResultMarker (tagValue exGame ''Result'')"
    by code_simp
  have h5: "boardAccepts exPgnEnv 0 (tagsRead exGame Verbose) (map moveString (m_moves exGame))"
    by code_simp
  have h6: "int (length (m_moves exGame)) < 1000"
    by code_simp
  have ms: "map moveString (m_moves exGame) = [''e4'', ''e5'', ''Nf3'']"
    by code_simp
  have vs: "tagValue exGame ''White'' = ''A''" "tagValue exGame ''Black'' = ''B''"
    "tagValue exGame ''Result'' = ''1-0''"
    by code_simp+
  from read_write_roundtrip [where g = exGame and mode = Verbose and env = exPgnEnv
      and s = 0 and maxMoves = 1000]
    h1 h2 [unfolded list_all_iff] h3 [unfolded list_all_iff] h4 h5 h6
  obtain r where r: "readPgn exPgnEnv 0 1000 (pgnTokens (writePgn exGame Verbose)) = (True, r)"
    "map moveString (m_moves (rGame r)) = map moveString (m_moves exGame)"
    "\<forall>t\<in>set roster. tagValue (rGame r) t = (if tagValue exGame t = [] then ''?'' else tagValue exGame t)"
    by blast
  from r(3) have "tagValue (rGame r) ''White'' = ''A''" "tagValue (rGame r) ''Black'' = ''B''"
    "tagValue (rGame r) ''Result'' = ''1-0''"
    by (simp_all add: roster_def vs)
  with r(1,2) ms h1 h2 h3 h4 h5 h6 show ?thesis by simp
qed

text \<open>
  Claim C6 as stated fails on a roster tag without a value: the game has no \<open>Event\<close>
  tag, \<open>write\<close> renders it as \<open>[Event "?"]\<close>, and the game read back has the
  \<open>Event\<close> value \<open>?\<close>.
\<close>

theorem read_write_missing_tag_counterexample:
  "tagValue exGame ''Event'' = []
   \<and> fst (readPgn exPgnEnv 0 1000 (pgnTokens (writePgn exGame Minimal)))
   \<and> tagValue (rGame (snd (readPgn exPgnEnv 0 1000 (pgnTokens (writePgn exGame Minimal))))) ''Event''
       = ''?''"
  by code_simp

end
